theory Spec2Isabelle
  imports Main "HOL-Library.Char_ord" "HOL-Library.List_Lexorder"
begin

section \<open>Python byte strings\<close>

text \<open>
  The module is Python 2 code (\<^verbatim>\<open>cmp\<close>, \<^verbatim>\<open>distutils\<close>): a \<^verbatim>\<open>str\<close> is a byte string,
  modelled as \<^typ>\<open>string\<close>. \<^verbatim>\<open>str.strip\<close>, \<^verbatim>\<open>str.rstrip\<close> and the regular
  expression class \<^verbatim>\<open>\s\<close> all use the six ASCII whitespace characters.
\<close>

definition newline :: char where
  "newline = CHR ''\<newline>''"

definition whitespace :: "char list" where
  "whitespace = [CHR '' '', CHR 0x09, CHR ''\<newline>'', CHR 0x0D, CHR 0x0B, CHR 0x0C]"

definition isspace :: "char \<Rightarrow> bool" where
  "isspace c = (c \<in> set whitespace)"

definition lstrip :: "string \<Rightarrow> string" where
  "lstrip s = dropWhile isspace s"

definition rstrip :: "string \<Rightarrow> string" where
  "rstrip s = rev (dropWhile isspace (rev s))"

definition strip :: "string \<Rightarrow> string" where
  "strip s = lstrip (rstrip s)"

definition startswith :: "string \<Rightarrow> string \<Rightarrow> bool" where
  "startswith s p = (take (length p) s = p)"

text \<open>\<^verbatim>\<open>sep in s\<close>: \<open>sep\<close> occurs in \<open>s\<close>.\<close>

fun contains :: "string \<Rightarrow> string \<Rightarrow> bool" where
  "contains [] sep = (sep = [])"
| "contains (c # cs) sep = (startswith (c # cs) sep \<or> contains cs sep)"

text \<open>
  \<^verbatim>\<open>s.split(sep)\<close> for a non-empty separator: the occurrences of \<open>sep\<close> are found from
  the left and do not overlap; the result always has at least one piece. (Python raises
  on an empty separator; every call of the module passes a literal, non-empty one, and
  the model then never cuts.)
\<close>

function str_split :: "string \<Rightarrow> string \<Rightarrow> string list" where
  "str_split [] sep = [[]]"
| "str_split (c # cs) sep =
     (if sep \<noteq> [] \<and> startswith (c # cs) sep
      then [] # str_split (drop (length sep) (c # cs)) sep
      else (case str_split cs sep of
              [] \<Rightarrow> [[c]]
            | p # ps \<Rightarrow> (c # p) # ps))"
  by pat_completeness auto
termination
  by (relation "measure (\<lambda>p. length (fst p))") auto

text \<open>\<^verbatim>\<open>sep.join(pieces)\<close>.\<close>

fun str_join :: "string \<Rightarrow> string list \<Rightarrow> string" where
  "str_join sep [] = []"
| "str_join sep [x] = x"
| "str_join sep (x # y # ys) = x @ sep @ str_join sep (y # ys)"

text \<open>The slice \<^verbatim>\<open>xs[i:j]\<close> for \<open>0 \<le> i\<close>.\<close>

definition slice :: "'a list \<Rightarrow> nat \<Rightarrow> nat \<Rightarrow> 'a list" where
  "slice xs i j = take (j - i) (drop i xs)"

text \<open>\<^verbatim>\<open>int(num)\<close> on a string of decimal digits, and \<^verbatim>\<open>str(n)\<close> of an integer.\<close>

definition int_of_str :: "string \<Rightarrow> int" where
  "int_of_str s = foldl (\<lambda>n c. 10 * n + (int (of_char c) - 48)) 0 s"

function str_of_nat :: "nat \<Rightarrow> string" where
  "str_of_nat n =
     (if n < 10 then [char_of (48 + n)]
      else str_of_nat (n div 10) @ [char_of (48 + n mod 10)])"
  by pat_completeness auto
termination
  by (relation "measure (\<lambda>n. n)") auto

declare str_of_nat.simps [simp del]

definition str_of_int :: "int \<Rightarrow> string" where
  "str_of_int i = (if i < 0 then CHR ''-'' # str_of_nat (nat (- i)) else str_of_nat (nat i))"

section \<open>Regular expressions\<close>

text \<open>
  The fragment of \<^verbatim>\<open>re\<close> the module's patterns are written in, with the matching
  order of a backtracking matcher: \<open>run r st\<close> lists every way \<open>r\<close> can match from the
  state \<open>st\<close>, the preferred one first, so its head is what \<^verbatim>\<open>re\<close> returns. A state is
  the text before the current position (reversed), the text after it, and the spans
  (start, end) of the groups closed so far, the latest first. \<open>Bol\<close> is \<^verbatim>\<open>^\<close> under
  \<^verbatim>\<open>re.MULTILINE\<close>; \<open>Dot\<close> is \<^verbatim>\<open>.\<close>, any character but a newline.
\<close>

datatype re =
    Eps
  | Dot
  | Chr char
  | OneOf "char list"
  | Bol
  | Seq re re
  | Alt re re
  | Star re
  | LazyStar re
  | Group nat re

type_synonym mstate = "string \<times> string \<times> (nat \<times> nat \<times> nat) list"

definition rest :: "mstate \<Rightarrow> string" where
  "rest st = fst (snd st)"

definition step_if :: "(char \<Rightarrow> bool) \<Rightarrow> mstate \<Rightarrow> mstate list" where
  "step_if p st =
     (case st of (b, a, g) \<Rightarrow>
        (case a of [] \<Rightarrow> [] | c # a' \<Rightarrow> if p c then [(c # b, a', g)] else []))"

definition close_group :: "nat \<Rightarrow> mstate \<Rightarrow> mstate \<Rightarrow> mstate" where
  "close_group n st st' =
     (case st' of (b', a', g') \<Rightarrow> (b', a', (n, length (fst st), length b') # g'))"

function run :: "re \<Rightarrow> mstate \<Rightarrow> mstate list" where
  "run Eps st = [st]"
| "run Dot st = step_if (\<lambda>c. c \<noteq> newline) st"
| "run (Chr x) st = step_if (\<lambda>c. c = x) st"
| "run (OneOf xs) st = step_if (\<lambda>c. c \<in> set xs) st"
| "run Bol st = (if fst st = [] \<or> hd (fst st) = newline then [st] else [])"
| "run (Seq r s) st = concat (map (run s) (run r st))"
| "run (Alt r s) st = run r st @ run s st"
| "run (Star r) st =
     concat (map (\<lambda>st'. if length (rest st') < length (rest st) then run (Star r) st' else [])
                 (run r st)) @ [st]"
| "run (LazyStar r) st =
     st # concat (map (\<lambda>st'. if length (rest st') < length (rest st)
                               then run (LazyStar r) st' else [])
                      (run r st))"
| "run (Group n r) st = map (close_group n st) (run r st)"
  by pat_completeness auto
termination
  by (relation "measure size <*lex*> measure (\<lambda>st. length (rest st))") auto

definition Many1 :: "re \<Rightarrow> re" where
  "Many1 r = Seq r (Star r)"

definition LazyMany1 :: "re \<Rightarrow> re" where
  "LazyMany1 r = Seq r (LazyStar r)"

definition Opt :: "re \<Rightarrow> re" where
  "Opt r = Alt r Eps"

definition Str :: "string \<Rightarrow> re" where
  "Str s = foldr (\<lambda>c r. Seq (Chr c) r) s Eps"

definition Seqs :: "re list \<Rightarrow> re" where
  "Seqs rs = foldr Seq rs Eps"

primrec ngroups :: "re \<Rightarrow> nat" where
  "ngroups Eps = 0"
| "ngroups Dot = 0"
| "ngroups (Chr x) = 0"
| "ngroups (OneOf xs) = 0"
| "ngroups Bol = 0"
| "ngroups (Seq r s) = ngroups r + ngroups s"
| "ngroups (Alt r s) = ngroups r + ngroups s"
| "ngroups (Star r) = ngroups r"
| "ngroups (LazyStar r) = ngroups r"
| "ngroups (Group n r) = Suc (ngroups r)"

text \<open>\<^verbatim>\<open>pattern.match(text)\<close>: a match starting at position 0, or \<^verbatim>\<open>None\<close>.\<close>

definition re_match :: "re \<Rightarrow> string \<Rightarrow> mstate option" where
  "re_match r t = (case run r ([], t, []) of [] \<Rightarrow> None | st # _ \<Rightarrow> Some st)"

text \<open>\<^verbatim>\<open>pattern.search(text)\<close>: the match at the leftmost position that has one.\<close>

fun search_from :: "re \<Rightarrow> string \<Rightarrow> string \<Rightarrow> mstate option" where
  "search_from r b [] = (case run r (b, [], []) of [] \<Rightarrow> None | st # _ \<Rightarrow> Some st)"
| "search_from r b (c # a) =
     (case run r (b, c # a, []) of [] \<Rightarrow> search_from r (c # b) a | st # _ \<Rightarrow> Some st)"

definition re_search :: "re \<Rightarrow> string \<Rightarrow> mstate option" where
  "re_search r t = search_from r [] t"

text \<open>
  The match object: \<^verbatim>\<open>m.start(n)\<close>, \<^verbatim>\<open>m.end(n)\<close>, \<^verbatim>\<open>m.group(n)\<close> and \<^verbatim>\<open>m.groups()\<close>.
  The groups of a pattern are numbered from 1 in the order of their opening parentheses.
  A group that took no part in the match has no span (\<open>None\<close> in \<open>groups\<close>); the groups
  whose \<^verbatim>\<open>start\<close>, \<^verbatim>\<open>end\<close> or \<^verbatim>\<open>group\<close> the module reads take part in every match of their
  pattern, so the value of \<open>m_start\<close> and \<open>m_end\<close> for a group without a span is never
  used.
\<close>

definition span :: "mstate \<Rightarrow> nat \<Rightarrow> (nat \<times> nat) option" where
  "span m n = map_of (snd (snd m)) n"

definition m_start :: "mstate \<Rightarrow> nat \<Rightarrow> nat" where
  "m_start m n = (case span m n of None \<Rightarrow> 0 | Some (s, e) \<Rightarrow> s)"

definition m_end :: "mstate \<Rightarrow> nat \<Rightarrow> nat" where
  "m_end m n = (case span m n of None \<Rightarrow> 0 | Some (s, e) \<Rightarrow> e)"

definition group :: "string \<Rightarrow> mstate \<Rightarrow> nat \<Rightarrow> string" where
  "group t m n = slice t (m_start m n) (m_end m n)"

definition groups :: "re \<Rightarrow> string \<Rightarrow> mstate \<Rightarrow> string option list" where
  "groups r t m =
     map (\<lambda>n. case span m n of None \<Rightarrow> None | Some (s, e) \<Rightarrow> Some (slice t s e))
         [1 ..< Suc (ngroups r)]"

section \<open>Errors\<close>

text \<open>
  The exceptions the modelled code raises: \<^verbatim>\<open>ValueError(message)\<close>, and the
  \<^verbatim>\<open>AttributeError\<close> of an attribute access on \<^verbatim>\<open>None\<close>.
\<close>

datatype error = ValueError string | AttributeError

section \<open>SemanticVersion\<close>

record SemanticVersion =
  series_name :: string
  major :: int
  minor :: int
  patch :: int

definition digits :: "char list" where
  "digits = ''0123456789''"

text \<open>\<^verbatim>\<open>SEMVER_MATCHER = re.compile(r'(.+)-(\d+)\.(\d+)\.(\d+)')\<close>\<close>

definition SEMVER_MATCHER :: re where
  "SEMVER_MATCHER =
     Seqs [Group 1 (Many1 Dot), Chr CHR ''-'',
           Group 2 (Many1 (OneOf digits)), Chr CHR ''.'',
           Group 3 (Many1 (OneOf digits)), Chr CHR ''.'',
           Group 4 (Many1 (OneOf digits))]"

definition TAG_INDEX :: int where "TAG_INDEX = 0"
definition MAJOR_INDEX :: int where "MAJOR_INDEX = 1"
definition MINOR_INDEX :: int where "MINOR_INDEX = 2"
definition PATCH_INDEX :: int where "PATCH_INDEX = 3"

text \<open>\<^verbatim>\<open>SemanticVersion.make(tag)\<close>\<close>

definition SemanticVersion_make :: "string \<Rightarrow> error + SemanticVersion" where
  "SemanticVersion_make tag =
     (case re_match SEMVER_MATCHER tag of
        None \<Rightarrow> Inl (ValueError (''Malformed tag \"'' @ tag @ ''\"''))
      | Some m \<Rightarrow>
          Inr \<lparr>series_name = group tag m 1,
               major = int_of_str (group tag m 2),
               minor = int_of_str (group tag m 3),
               patch = int_of_str (group tag m 4)\<rparr>)"

definition to_version :: "SemanticVersion \<Rightarrow> string" where
  "to_version v =
     str_of_int (major v) @ ''.'' @ str_of_int (minor v) @ ''.'' @ str_of_int (patch v)"

definition to_tag :: "SemanticVersion \<Rightarrow> string" where
  "to_tag v =
     series_name v @ ''-'' @ str_of_int (major v) @ ''.'' @ str_of_int (minor v) @ ''.''
       @ str_of_int (patch v)"

text \<open>\<^verbatim>\<open>SemanticVersion.next(at_index)\<close>; \<open>None\<close> is Python's \<^verbatim>\<open>None\<close>.\<close>

definition SemanticVersion_next :: "SemanticVersion \<Rightarrow> int option \<Rightarrow> error + SemanticVersion" where
  "SemanticVersion_next v at_index =
     (case at_index of
        None \<Rightarrow> Inl (ValueError ''Invalid index=None'')
      | Some i \<Rightarrow>
          if i = PATCH_INDEX then Inr (v\<lparr>patch := patch v + 1\<rparr>)
          else if i = MINOR_INDEX then Inr (v\<lparr>minor := minor v + 1, patch := 0\<rparr>)
          else if i = MAJOR_INDEX then Inr (v\<lparr>major := major v + 1, minor := 0, patch := 0\<rparr>)
          else Inl (ValueError (''Invalid index='' @ str_of_int i)))"

text \<open>
  For stating which tag texts parse. \<open>tag_form\<close> follows the words of the specification:
  the text is \<^verbatim>\<open><series>-<major>.<minor>.<patch>\<close> with a non-empty series and decimal
  components (any further restriction of the series only narrows it).
  \<open>tag_prefix_form\<close> is the form the pattern accepts under \<^verbatim>\<open>match\<close>: such a text with a
  series free of newlines, followed by any text.
\<close>

definition is_number :: "string \<Rightarrow> bool" where
  "is_number s = (s \<noteq> [] \<and> list_all (\<lambda>c. c \<in> set digits) s)"

definition tag_form :: "string \<Rightarrow> bool" where
  "tag_form t =
     (\<exists>series ma mi pa.
        t = series @ ''-'' @ ma @ ''.'' @ mi @ ''.'' @ pa \<and> series \<noteq> [] \<and>
        is_number ma \<and> is_number mi \<and> is_number pa)"

definition tag_prefix_form :: "string \<Rightarrow> bool" where
  "tag_prefix_form t =
     (\<exists>series ma mi pa trailing.
        t = series @ ''-'' @ ma @ ''.'' @ mi @ ''.'' @ pa @ trailing \<and>
        series \<noteq> [] \<and> newline \<notin> set series \<and>
        is_number ma \<and> is_number mi \<and> is_number pa)"

text \<open>
  One way of reading a text as a series, three numbers and trailing text. A text can have
  several: \<^verbatim>\<open>a-1.2.3-9.9.9\<close> reads with the series \<^verbatim>\<open>a\<close> or \<^verbatim>\<open>a-1.2.3\<close>, and
  \<^verbatim>\<open>a-1.2.34\<close> with the patch \<^verbatim>\<open>3\<close> or \<^verbatim>\<open>34\<close>.
\<close>

definition semver_split :: "string \<Rightarrow> string \<Rightarrow> string \<Rightarrow> string \<Rightarrow> string \<Rightarrow> string \<Rightarrow> bool" where
  "semver_split t series ma mi pa trailing =
     (t = series @ ''-'' @ ma @ ''.'' @ mi @ ''.'' @ pa @ trailing \<and>
      series \<noteq> [] \<and> newline \<notin> set series \<and>
      is_number ma \<and> is_number mi \<and> is_number pa)"

section \<open>CommitTag\<close>

text \<open>
  One result of \<^verbatim>\<open>git show-ref --tags\<close>. Instances compare by their \<open>tag\<close> text alone
  (\<^verbatim>\<open>__lt__\<close> and its siblings), which for byte strings is the lexicographic order of
  \<^typ>\<open>string\<close>. The \<^verbatim>\<open>version\<close> field (a \<^verbatim>\<open>LooseVersion\<close>) is read by none of the
  code modelled here and is left out.
\<close>

record CommitTag =
  tag_commit_id :: string
  tag :: string

section \<open>CommitMessage\<close>

record CommitMessage =
  commit_id :: string
  author :: string
  date :: string
  message :: string

text \<open>
  \<^verbatim>\<open>_MEDIUM_PRETTY_COMMIT_MATCHER = re.compile('(.+)\nAuthor: *(.+)\nDate: *(.*)\n', re.MULTILINE)\<close>
\<close>

definition MEDIUM_PRETTY_COMMIT_MATCHER :: re where
  "MEDIUM_PRETTY_COMMIT_MATCHER =
     Seqs [Group 1 (Many1 Dot), Chr newline,
           Str ''Author:'', Star (Chr CHR '' ''), Group 2 (Many1 Dot), Chr newline,
           Str ''Date:'', Star (Chr CHR '' ''), Group 3 (Star Dot), Chr newline]"

text \<open>
  \<^verbatim>\<open>_EMBEDDED_COMMIT_MATCHER = re.compile(r'^( *)commit [a-f0-9]+\n' r'^\s*Author: .+\n' r'^\s*Date:   .+\n', re.MULTILINE)\<close>
\<close>

definition EMBEDDED_COMMIT_MATCHER :: re where
  "EMBEDDED_COMMIT_MATCHER =
     Seqs [Bol, Group 1 (Star (Chr CHR '' '')), Str ''commit '',
           Many1 (OneOf ''abcdef0123456789''), Chr newline,
           Bol, Star (OneOf whitespace), Str ''Author: '', Many1 Dot, Chr newline,
           Bol, Star (OneOf whitespace), Str ''Date:   '', Many1 Dot, Chr newline]"

text \<open>
  \<^verbatim>\<open>_EMBEDDED_SUMMARY_MATCHER = re.compile(r'^\s*(?:\*\s*)?[a-z]+\(.+?\): .+', re.MULTILINE)\<close>
\<close>

definition EMBEDDED_SUMMARY_MATCHER :: re where
  "EMBEDDED_SUMMARY_MATCHER =
     Seqs [Bol, Star (OneOf whitespace),
           Opt (Seq (Chr CHR ''*'') (Star (OneOf whitespace))),
           Many1 (OneOf ''abcdefghijklmnopqrstuvwxyz''),
           Chr CHR ''('', LazyMany1 Dot, Str ''): '', Many1 Dot]"

text \<open>
  \<^verbatim>\<open>DEFAULT_PATCH_REGEXS = [re.compile(r'^\s*(?:\*\s+)?((?:fix|bug|docs?|test)[\(:].*)', re.MULTILINE)]\<close>
\<close>

definition DEFAULT_PATCH_REGEXS :: "re list" where
  "DEFAULT_PATCH_REGEXS =
     [Seqs [Bol, Star (OneOf whitespace),
            Opt (Seq (Chr CHR ''*'') (Many1 (OneOf whitespace))),
            Group 1 (Seqs [Alt (Str ''fix'') (Alt (Str ''bug'')
                             (Alt (Seq (Str ''doc'') (Opt (Chr CHR ''s''))) (Str ''test''))),
                           OneOf ''(:'', Star Dot])]]"

text \<open>
  \<^verbatim>\<open>DEFAULT_MINOR_REGEXS = [re.compile(r'^\s*(?:\*\s+)?((?:feat|feature|chore|refactor|perf|config)[\(:].*)', re.MULTILINE)]\<close>
\<close>

definition DEFAULT_MINOR_REGEXS :: "re list" where
  "DEFAULT_MINOR_REGEXS =
     [Seqs [Bol, Star (OneOf whitespace),
            Opt (Seq (Chr CHR ''*'') (Many1 (OneOf whitespace))),
            Group 1 (Seqs [Alt (Str ''feat'') (Alt (Str ''feature'') (Alt (Str ''chore'')
                             (Alt (Str ''refactor'') (Alt (Str ''perf'') (Str ''config''))))),
                           OneOf ''(:'', Star Dot])]]"

text \<open>
  \<^verbatim>\<open>DEFAULT_MAJOR_REGEXS = [re.compile(r'^\s*(.*?BREAKING CHANGE.*)', re.MULTILINE)]\<close>
\<close>

definition DEFAULT_MAJOR_REGEXS :: "re list" where
  "DEFAULT_MAJOR_REGEXS =
     [Seqs [Bol, Star (OneOf whitespace),
            Group 1 (Seqs [LazyStar Dot, Str ''BREAKING CHANGE'', Star Dot])]]"

text \<open>
  \<^verbatim>\<open>CommitMessage.make(entry)\<close>. When the header pattern does not match, \<^verbatim>\<open>match\<close> is
  \<^verbatim>\<open>None\<close> and \<^verbatim>\<open>match.end(3)\<close> raises \<^verbatim>\<open>AttributeError\<close>.
\<close>

definition CommitMessage_make :: "string \<Rightarrow> error + CommitMessage" where
  "CommitMessage_make entry =
     (case re_match MEDIUM_PRETTY_COMMIT_MATCHER entry of
        None \<Rightarrow> Inl AttributeError
      | Some m \<Rightarrow>
          (let text = drop (m_end m 3) entry;
               lines = map rstrip (str_split text [newline]);
               lines = dropWhile (\<lambda>l. l = []) lines;
               lines = rev (dropWhile (\<lambda>l. l = []) (rev lines));
               text = str_join [newline] lines
           in Inr \<lparr>commit_id = group entry m 1, author = group entry m 2,
                   date = group entry m 3, message = text\<rparr>))"

text \<open>The loop of \<^verbatim>\<open>make_list_from_result\<close>: the first entry that raises ends it.\<close>

fun make_entries :: "string list \<Rightarrow> error + CommitMessage list" where
  "make_entries [] = Inr []"
| "make_entries (entry # entries) =
     (case CommitMessage_make entry of
        Inl e \<Rightarrow> Inl e
      | Inr m \<Rightarrow> (case make_entries entries of Inl e \<Rightarrow> Inl e | Inr ms \<Rightarrow> Inr (m # ms)))"

definition all_entries :: "string \<Rightarrow> string list" where
  "all_entries response_text = tl (str_split (newline # strip response_text) (newline # ''commit ''))"

definition make_list_from_result :: "string \<Rightarrow> error + CommitMessage list" where
  "make_list_from_result response_text = make_entries (all_entries response_text)"

subsection \<open>Pass A: embedded commits\<close>

text \<open>
  The records \<^verbatim>\<open>logging.warning\<close> and \<^verbatim>\<open>logging.info\<close> emit in the pass, with the
  arguments of their format strings. (Records of level \<^verbatim>\<open>debug\<close> are not modelled.)
\<close>

datatype log_record = LogWarning string nat | LogInfo string string

text \<open>
  The inner loop over \<^verbatim>\<open>text_lines\<close>: \<open>Some\<close> of the pruned lines when it runs to its
  end, \<open>None\<close> when it reaches the \<^verbatim>\<open>break\<close> (the branch that empties
  \<^verbatim>\<open>pruned_lines\<close> and appends the original message).
\<close>

fun prune_lines :: "string \<Rightarrow> nat \<Rightarrow> string list \<Rightarrow> string list option" where
  "prune_lines prefix offset [] = Some []"
| "prune_lines prefix offset (line # text_lines) =
     (if startswith line prefix
      then map_option (\<lambda>pruned. drop offset line # pruned) (prune_lines prefix offset text_lines)
      else if line = []
      then map_option (\<lambda>pruned. line # pruned) (prune_lines prefix offset text_lines)
      else None)"

text \<open>
  The body of the outer loop for one message: the log records it emits, and the
  messages it appends to \<^verbatim>\<open>result\<close> or the exception it raises.
\<close>

definition unpack_commit :: "CommitMessage \<Rightarrow> log_record list \<times> (error + CommitMessage list)" where
  "unpack_commit commit_message =
     (let text = message commit_message in
      case re_search EMBEDDED_COMMIT_MATCHER text of
        None \<Rightarrow> ([], Inr [commit_message])
      | Some found \<Rightarrow>
          (let text_before = take (m_start found 1) text;
               text_lines = str_split (drop (m_start found 1) text) [newline];
               offset = m_end found 1 - m_start found 1
           in case prune_lines (group text found 1) offset text_lines of
                None \<Rightarrow> ([LogWarning text offset], Inr [commit_message])
              | Some pruned_lines \<Rightarrow>
                  if pruned_lines \<noteq> []
                  then (if strip text_before \<noteq> []
                        then [LogInfo text_before (str_join [newline] pruned_lines)] else [],
                        make_list_from_result (str_join [newline] pruned_lines))
                  else ([], Inr [])))"

fun unpack_embedded_commits ::
  "CommitMessage list \<Rightarrow> log_record list \<times> (error + CommitMessage list)" where
  "unpack_embedded_commits [] = ([], Inr [])"
| "unpack_embedded_commits (commit_message # msg_list) =
     (case unpack_commit commit_message of
        (logs, Inl e) \<Rightarrow> (logs, Inl e)
      | (logs, Inr found) \<Rightarrow>
          (case unpack_embedded_commits msg_list of
             (logs', Inl e) \<Rightarrow> (logs @ logs', Inl e)
           | (logs', Inr result) \<Rightarrow> (logs @ logs', Inr (found @ result))))"

subsection \<open>Pass B: embedded summaries\<close>

text \<open>
  The inner loop \<^verbatim>\<open>for index, line in enumerate(lines)\<close>: its state is \<^verbatim>\<open>prev\<close> and the
  messages appended so far for this record.
\<close>

fun summaries_loop ::
  "CommitMessage \<Rightarrow> string list \<Rightarrow> string list \<Rightarrow> nat \<Rightarrow> int \<Rightarrow> CommitMessage list
     \<Rightarrow> int \<times> CommitMessage list" where
  "summaries_loop cm lines [] index prev result = (prev, result)"
| "summaries_loop cm lines (line # later) index prev result =
     (if re_match EMBEDDED_SUMMARY_MATCHER line \<noteq> None
      then summaries_loop cm lines later (index + 1) (int index)
             (if prev \<ge> 0
              then result @
                   [\<lparr>commit_id = commit_id cm, author = author cm, date = date cm,
                     message = rstrip (str_join [newline] (slice lines (nat prev) index))\<rparr>]
              else result)
      else summaries_loop cm lines later (index + 1) prev result)"

definition unpack_summaries :: "CommitMessage \<Rightarrow> CommitMessage list" where
  "unpack_summaries cm =
     (let lines = str_split (message cm) [newline];
          (prev, result) = summaries_loop cm lines lines 0 (- 1) [];
          prev = (if prev < 0 then 0 else prev)
      in result @
         [\<lparr>commit_id = commit_id cm, author = author cm, date = date cm,
           message = rstrip (str_join [newline] (drop (nat prev) lines))\<rparr>])"

definition unpack_embedded_summaries :: "CommitMessage list \<Rightarrow> CommitMessage list" where
  "unpack_embedded_summaries msg_list = concat (map unpack_summaries msg_list)"

text \<open>
  For stating what the pass emits: the indexes of the lines of a message that the summary
  pattern matches, and the record emitted for the lines \<^verbatim>\<open>lines[i:j]\<close>.
\<close>

definition summary_indexes :: "string list \<Rightarrow> nat list" where
  "summary_indexes lines =
     filter (\<lambda>i. re_match EMBEDDED_SUMMARY_MATCHER (lines ! i) \<noteq> None) [0 ..< length lines]"

definition summary_block :: "CommitMessage \<Rightarrow> string list \<Rightarrow> nat \<Rightarrow> nat \<Rightarrow> CommitMessage" where
  "summary_block cm lines i j =
     \<lparr>commit_id = commit_id cm, author = author cm, date = date cm,
      message = rstrip (str_join [newline] (slice lines i j))\<rparr>"

definition normalize_message_list ::
  "CommitMessage list \<Rightarrow> log_record list \<times> (error + CommitMessage list)" where
  "normalize_message_list msg_list =
     (case unpack_embedded_commits msg_list of
        (logs, Inl e) \<Rightarrow> (logs, Inl e)
      | (logs, Inr msg_list') \<Rightarrow> (logs, Inr (unpack_embedded_summaries msg_list')))"

subsection \<open>Severity\<close>

text \<open>
  \<^verbatim>\<open>is_compliant(spec)\<close>: \<^verbatim>\<open>match.groups()\<close> of the first pattern of \<open>spec\<close> that is found
  in the stripped message, \<^verbatim>\<open>None\<close> when \<open>spec\<close> is empty or no pattern is found. A
  pattern passed on its own stands for the list holding it.
\<close>

fun first_groups :: "re list \<Rightarrow> string \<Rightarrow> string option list option" where
  "first_groups [] text = None"
| "first_groups (matcher # spec) text =
     (case re_search matcher text of
        Some m \<Rightarrow> Some (groups matcher text m)
      | None \<Rightarrow> first_groups spec text)"

definition is_compliant :: "CommitMessage \<Rightarrow> re list \<Rightarrow> string option list option" where
  "is_compliant cm spec = (if spec = [] then None else first_groups spec (strip (message cm)))"

text \<open>The truth value of \<^verbatim>\<open>reason\<close> in \<^verbatim>\<open>if reason:\<close>: neither \<^verbatim>\<open>None\<close> nor the empty tuple.\<close>

definition truthy :: "string option list option \<Rightarrow> bool" where
  "truthy reason = (case reason of None \<Rightarrow> False | Some gs \<Rightarrow> gs \<noteq> [])"

text \<open>
  \<^verbatim>\<open>determine_semver_implication\<close>; a rule set given as \<open>None\<close> takes its default.
\<close>

definition determine_semver_implication ::
  "CommitMessage \<Rightarrow> re list option \<Rightarrow> re list option \<Rightarrow> re list option \<Rightarrow> int \<Rightarrow> int" where
  "determine_semver_implication cm major_regexs minor_regexs patch_regexs default_semver_index =
     (let major_regexs = (case major_regexs of None \<Rightarrow> DEFAULT_MAJOR_REGEXS | Some rs \<Rightarrow> rs);
          minor_regexs = (case minor_regexs of None \<Rightarrow> DEFAULT_MINOR_REGEXS | Some rs \<Rightarrow> rs);
          patch_regexs = (case patch_regexs of None \<Rightarrow> DEFAULT_PATCH_REGEXS | Some rs \<Rightarrow> rs)
      in if truthy (is_compliant cm major_regexs) then MAJOR_INDEX
         else if truthy (is_compliant cm minor_regexs) then MINOR_INDEX
         else if truthy (is_compliant cm patch_regexs) then PATCH_INDEX
         else default_semver_index)"

text \<open>\<^verbatim>\<open>determine_semver_implication_on_list\<close>; the result \<open>None\<close> is Python's \<^verbatim>\<open>None\<close>.\<close>

definition determine_semver_implication_on_list ::
  "CommitMessage list \<Rightarrow> re list option \<Rightarrow> re list option \<Rightarrow> re list option \<Rightarrow> int
     \<Rightarrow> int option" where
  "determine_semver_implication_on_list msg_list major_regexs minor_regexs patch_regexs
       default_semver_index =
     (if msg_list = [] then None
      else Some (fold (\<lambda>commit_message msi.
                         min msi (determine_semver_implication commit_message
                                    major_regexs minor_regexs patch_regexs default_semver_index))
                      msg_list (PATCH_INDEX + 1)))"

section \<open>RepositorySummary and GitRunner\<close>

record RepositorySummary =
  summary_commit_id :: string
  summary_tag :: string
  summary_version :: string
  commit_messages :: "CommitMessage list"

text \<open>
  What the git commands of \<^verbatim>\<open>collect_repository_summary\<close> answer for one repository:
  the tags \<^verbatim>\<open>query_tag_commits\<close> returns, the output of \<^verbatim>\<open>rev-parse HEAD\<close>, of
  \<^verbatim>\<open>log --pretty=oneline <id>\<close> and of \<^verbatim>\<open>log -n <count> --pretty=medium <id>\<close>.
\<close>

record git_repository =
  tag_commits :: "CommitTag list"
  rev_parse_HEAD :: string
  log_oneline :: "string \<Rightarrow> string"
  log_medium :: "nat \<Rightarrow> string \<Rightarrow> string"

text \<open>
  The dictionary \<^verbatim>\<open>id_to_newest_tag\<close>, filled from \<^verbatim>\<open>sorted(commit_tags)\<close>: a later
  assignment to a key replaces the earlier one.
\<close>

definition id_to_newest_tag :: "CommitTag list \<Rightarrow> (string \<rightharpoonup> string)" where
  "id_to_newest_tag commit_tags =
     fold (\<lambda>commit_tag m. m(tag_commit_id commit_tag \<mapsto> tag commit_tag))
          (sort_key tag commit_tags) Map.empty"

text \<open>
  The loop over the lines of the one-line log: its state is \<^verbatim>\<open>tag\<close> (here \<open>found\<close>)
  and \<^verbatim>\<open>count\<close>;
  \<^verbatim>\<open>if tag:\<close> is false for \<^verbatim>\<open>None\<close> and for the empty string.
\<close>

fun baseline_loop ::
  "(string \<rightharpoonup> string) \<Rightarrow> string list \<Rightarrow> string option \<Rightarrow> nat \<Rightarrow> string option \<times> nat" where
  "baseline_loop m [] found count = (found, count)"
| "baseline_loop m (line # lines) found count =
     (let line_id = takeWhile (\<lambda>c. c \<noteq> CHR '' '') line;
          found = m line_id
      in if found \<noteq> None \<and> found \<noteq> Some [] then (found, count)
         else baseline_loop m lines found (count + 1))"

definition query_local_repository_commits_to_existing_tag_from_id ::
  "git_repository \<Rightarrow> string \<Rightarrow> string \<Rightarrow> CommitTag list
     \<Rightarrow> error + (string \<times> CommitMessage list)" where
  "query_local_repository_commits_to_existing_tag_from_id git git_dir head_id commit_tags =
     (case id_to_newest_tag commit_tags head_id of
        Some base_tag \<Rightarrow> Inr (base_tag, [])
      | None \<Rightarrow>
          (let result = log_oneline git head_id;
               lines = str_split result [newline]
           in case baseline_loop (id_to_newest_tag commit_tags) lines None 0 of
                (None, count) \<Rightarrow>
                  Inl (ValueError (''There is no baseline tag for commit \"'' @ head_id
                                     @ ''\" in '' @ git_dir @ ''.''))
              | (Some base_tag, count) \<Rightarrow>
                  (case make_list_from_result (log_medium git count head_id) of
                     Inl e \<Rightarrow> Inl e
                   | Inr messages \<Rightarrow> Inr (base_tag, messages))))"

definition collect_repository_summary :: "git_repository \<Rightarrow> string \<Rightarrow> error + RepositorySummary" where
  "collect_repository_summary git git_dir =
     (let all_tags = tag_commits git;
          current_id = rev_parse_HEAD git
      in case query_local_repository_commits_to_existing_tag_from_id git git_dir current_id all_tags of
           Inl e \<Rightarrow> Inl e
         | Inr (base_tag, msgs) \<Rightarrow>
             (case SemanticVersion_make base_tag of
                Inl e \<Rightarrow> Inl e
              | Inr current_semver \<Rightarrow>
                  if msgs \<noteq> []
                  then (let semver_significance =
                              determine_semver_implication_on_list msgs None None None MINOR_INDEX
                        in case SemanticVersion_next current_semver semver_significance of
                             Inl e \<Rightarrow> Inl e
                           | Inr next_semver \<Rightarrow>
                               Inr \<lparr>summary_commit_id = current_id,
                                    summary_tag = to_tag next_semver,
                                    summary_version = to_version next_semver,
                                    commit_messages = msgs\<rparr>)
                  else Inr \<lparr>summary_commit_id = current_id, summary_tag = base_tag,
                            summary_version = to_version current_semver,
                            commit_messages = msgs\<rparr>))"

text \<open>
  A repository for the examples: the tag \<^verbatim>\<open>version-1.0.0\<close> is on commit \<^verbatim>\<open>ba5e\<close>, HEAD is
  its child \<^verbatim>\<open>c0ffee\<close>, whose message has a line of text before a summary line.
\<close>

definition example_repository :: git_repository where
  "example_repository =
     \<lparr>tag_commits = [\<lparr>tag_commit_id = ''ba5e'', tag = ''version-1.0.0''\<rparr>],
      rev_parse_HEAD = ''c0ffee'',
      log_oneline = (\<lambda>commit. ''c0ffee BREAKING CHANGE intro\<newline>ba5e base''),
      log_medium = (\<lambda>count commit.
        ''commit c0ffee\<newline>Author: x\<newline>Date:   d\<newline>\<newline>    BREAKING CHANGE intro\<newline>    fix(a): b\<newline>'')\<rparr>"

section \<open>Aggregate severity\<close>

lemma fold_min_Min:
  fixes f :: "'a \<Rightarrow> int"
  shows "fold (\<lambda>x msi. min msi (f x)) xs a = Min (insert a (f ` set xs))"
proof (induction xs arbitrary: a)
  case Nil
  then show ?case by simp
next
  case (Cons x xs)
  have "Min (insert (min a (f x)) (f ` set xs)) = Min (insert a (insert (f x) (f ` set xs)))"
  proof (cases "set xs = {}")
    case True
    then show ?thesis by (simp add: min_def)
  next
    case False
    then have ne: "f ` set xs \<noteq> {}" by simp
    have fin: "finite (f ` set xs)" by simp
    show ?thesis
      using ne fin by (simp add: min.assoc)
  qed
  with Cons show ?case by simp
qed

lemma determine_semver_implication_range:
  "determine_semver_implication cm ma mi pa d \<in> {MAJOR_INDEX, MINOR_INDEX, PATCH_INDEX, d}"
  by (simp add: determine_semver_implication_def Let_def)

lemma MAJOR_least:
  assumes "d \<in> {MAJOR_INDEX, MINOR_INDEX, PATCH_INDEX}"
  shows "MAJOR_INDEX \<le> determine_semver_implication cm ma mi pa d"
    and "determine_semver_implication cm ma mi pa d \<le> PATCH_INDEX"
  using assms determine_semver_implication_range [of cm ma mi pa d]
  by (auto simp: MAJOR_INDEX_def MINOR_INDEX_def PATCH_INDEX_def)

text \<open>
  Claim C6. For a default severity that is one of MAJOR, MINOR, PATCH, and every non-empty
  list of commit messages, \<^verbatim>\<open>determine_semver_implication_on_list\<close> returns the most
  significant of the per-message classifications, which is their minimum as indexes
  (\<open>MAJOR_INDEX = 1 < MINOR_INDEX = 2 < PATCH_INDEX = 3\<close>); one message that classifies as
  MAJOR anywhere in the list makes the result MAJOR; and the result is \<^verbatim>\<open>None\<close> exactly
  when the list is empty.
\<close>

theorem classify_all_most_significant:
  assumes "d \<in> {MAJOR_INDEX, MINOR_INDEX, PATCH_INDEX}"
  shows "(msg_list \<noteq> [] \<longrightarrow>
            determine_semver_implication_on_list msg_list ma mi pa d =
              Some (Min ((\<lambda>cm. determine_semver_implication cm ma mi pa d) ` set msg_list)))
       \<and> ((\<exists>cm \<in> set msg_list. determine_semver_implication cm ma mi pa d = MAJOR_INDEX) \<longrightarrow>
            determine_semver_implication_on_list msg_list ma mi pa d = Some MAJOR_INDEX)
       \<and> (determine_semver_implication_on_list msg_list ma mi pa d = None \<longleftrightarrow> msg_list = [])"
proof -
  let ?f = "\<lambda>cm. determine_semver_implication cm ma mi pa d"
  let ?S = "?f ` set msg_list"
  have eq: "determine_semver_implication_on_list msg_list ma mi pa d = Some (Min ?S)"
    if ne: "msg_list \<noteq> []"
  proof -
    have fin: "finite ?S" and ne': "?S \<noteq> {}" using ne by simp_all
    have "Min ?S \<in> ?S" using fin ne' by (rule Min_in)
    then have "Min ?S \<le> PATCH_INDEX" using MAJOR_least(2) [OF assms] by auto
    then have "Min ?S \<le> PATCH_INDEX + 1" by linarith
    then have "min (PATCH_INDEX + 1) (Min ?S) = Min ?S"
      by (rule min_absorb2)
    moreover have "Min (insert (PATCH_INDEX + 1) ?S) = min (PATCH_INDEX + 1) (Min ?S)"
      using fin ne' by (rule Min_insert)
    ultimately have m: "Min (insert (PATCH_INDEX + 1) ?S) = Min ?S"
      by (simp only:)
    have "determine_semver_implication_on_list msg_list ma mi pa d =
            Some (fold (\<lambda>cm msi. min msi (?f cm)) msg_list (PATCH_INDEX + 1))"
      using ne by (simp add: determine_semver_implication_on_list_def)
    also have "fold (\<lambda>cm msi. min msi (?f cm)) msg_list (PATCH_INDEX + 1) =
                 Min (insert (PATCH_INDEX + 1) ?S)"
      by (rule fold_min_Min)
    finally show ?thesis by (simp only: m)
  qed
  have major: "determine_semver_implication_on_list msg_list ma mi pa d = Some MAJOR_INDEX"
    if ex: "\<exists>cm \<in> set msg_list. ?f cm = MAJOR_INDEX"
  proof -
    from ex have ne: "msg_list \<noteq> []" by auto
    have fin: "finite ?S" by simp
    from ex have "MAJOR_INDEX \<in> ?S" by force
    moreover have "\<forall>y \<in> ?S. MAJOR_INDEX \<le> y" using MAJOR_least(1) [OF assms] by auto
    ultimately have "Min ?S = MAJOR_INDEX" using fin by (intro Min_eqI) auto
    with eq [OF ne] show ?thesis by simp
  qed
  have none: "determine_semver_implication_on_list msg_list ma mi pa d = None \<longleftrightarrow> msg_list = []"
    by (simp add: determine_semver_implication_on_list_def)
  from eq major none show ?thesis by blast
qed

text \<open>The aggregation example of the specification: PATCH, MINOR and MAJOR give MAJOR.\<close>

theorem classify_all_most_significant_witness:
  "determine_semver_implication_on_list
     [\<lparr>commit_id = ''1'', author = ''a'', date = ''d'', message = ''fix: a''\<rparr>,
      \<lparr>commit_id = ''2'', author = ''a'', date = ''d'', message = ''feat: b''\<rparr>,
      \<lparr>commit_id = ''3'', author = ''a'', date = ''d'', message = ''chore: BREAKING CHANGE''\<rparr>]
     None None None MINOR_INDEX = Some MAJOR_INDEX"
proof -
  have d: "MINOR_INDEX \<in> {MAJOR_INDEX, MINOR_INDEX, PATCH_INDEX}" by simp
  have c: "determine_semver_implication
             \<lparr>commit_id = ''3'', author = ''a'', date = ''d'', message = ''chore: BREAKING CHANGE''\<rparr>
             None None None MINOR_INDEX = MAJOR_INDEX"
    by code_simp
  let ?msgs = "[\<lparr>commit_id = ''1'', author = ''a'', date = ''d'', message = ''fix: a''\<rparr>,
      \<lparr>commit_id = ''2'', author = ''a'', date = ''d'', message = ''feat: b''\<rparr>,
      \<lparr>commit_id = ''3'', author = ''a'', date = ''d'', message = ''chore: BREAKING CHANGE''\<rparr>]"
  have ex: "\<exists>cm \<in> set ?msgs.
              determine_semver_implication cm None None None MINOR_INDEX = MAJOR_INDEX"
    using c by simp
  have imp: "(\<exists>cm \<in> set ?msgs.
               determine_semver_implication cm None None None MINOR_INDEX = MAJOR_INDEX) \<longrightarrow>
             determine_semver_implication_on_list ?msgs None None None MINOR_INDEX = Some MAJOR_INDEX"
    using classify_all_most_significant [OF d, of ?msgs None None None] by (rule conjunct2 [THEN conjunct1])
  from imp ex show ?thesis by (rule mp)
qed

section \<open>The tag of a commit id\<close>

lemma fold_upd_last:
  "fold (\<lambda>c m. m(k c \<mapsto> v c)) xs m0 x =
     (if filter (\<lambda>c. k c = x) xs = [] then m0 x
      else Some (v (last (filter (\<lambda>c. k c = x) xs))))"
  by (induction xs rule: rev_induct) simp_all

lemma sorted_last_Max:
  fixes xs :: "'a::linorder list"
  assumes "sorted xs" and "xs \<noteq> []"
  shows "last xs = Max (set xs)"
proof -
  have "\<forall>y \<in> set xs. y \<le> last xs"
    using assms
  proof (induction xs rule: rev_induct)
    case Nil
    then show ?case by simp
  next
    case (snoc a xs)
    then show ?case by (auto simp: sorted_append)
  qed
  moreover have "last xs \<in> set xs" using assms(2) by simp
  ultimately show ?thesis by (intro Max_eqI [symmetric]) auto
qed

text \<open>
  Claim C9. In the dictionary \<^verbatim>\<open>id_to_newest_tag\<close> built from \<^verbatim>\<open>sorted(commit_tags)\<close>, the
  tag chosen for a commit id that occurs in the tag records (once or several times) is
  the greatest tag text of the records with that id, in the lexicographic order of byte
  strings (the order of \<^typ>\<open>string\<close>), not the numerically newest version.
\<close>

theorem newest_tag_is_lexicographic_max:
  assumes "ct \<in> set commit_tags"
  shows "id_to_newest_tag commit_tags (tag_commit_id ct) =
           Some (Max (tag ` {c \<in> set commit_tags. tag_commit_id c = tag_commit_id ct}))"
proof -
  let ?P = "\<lambda>c. tag_commit_id c = tag_commit_id ct"
  let ?ys = "filter ?P (sort_key tag commit_tags)"
  have set_ys: "set ?ys = {c \<in> set commit_tags. ?P c}" by auto
  have in_ys: "ct \<in> set ?ys" using assms by simp
  have ne: "?ys \<noteq> []"
  proof
    assume e: "?ys = []"
    from in_ys show False unfolding e by simp
  qed
  have "sorted (map tag ?ys)" by (rule sorted_filter) simp
  then have "last (map tag ?ys) = Max (set (map tag ?ys))"
    using ne by (intro sorted_last_Max) simp_all
  then have "tag (last ?ys) = Max (tag ` set ?ys)"
    using ne by (simp add: last_map)
  then have "tag (last ?ys) = Max (tag ` {c \<in> set commit_tags. ?P c})"
    by (simp only: set_ys)
  moreover have "id_to_newest_tag commit_tags (tag_commit_id ct) = Some (tag (last ?ys))"
    unfolding id_to_newest_tag_def fold_upd_last using ne by simp
  ultimately show ?thesis by simp
qed

text \<open>
  Of \<^verbatim>\<open>version-9.0.0\<close> and \<^verbatim>\<open>version-10.0.0\<close> on one commit, the first is chosen: it is the
  greater text, although the smaller version.
\<close>

theorem newest_tag_is_lexicographic_max_witness:
  "id_to_newest_tag
     [\<lparr>tag_commit_id = ''A'', tag = ''version-9.0.0''\<rparr>,
      \<lparr>tag_commit_id = ''A'', tag = ''version-10.0.0''\<rparr>,
      \<lparr>tag_commit_id = ''B'', tag = ''version-11.0.0''\<rparr>] ''A''
   = Some (Max (tag ` {c \<in> set [\<lparr>tag_commit_id = ''A'', tag = ''version-9.0.0''\<rparr>,
                                   \<lparr>tag_commit_id = ''A'', tag = ''version-10.0.0''\<rparr>,
                                   \<lparr>tag_commit_id = ''B'', tag = ''version-11.0.0''\<rparr>].
                        tag_commit_id c = ''A''}))
   \<and> id_to_newest_tag
     [\<lparr>tag_commit_id = ''A'', tag = ''version-9.0.0''\<rparr>,
      \<lparr>tag_commit_id = ''A'', tag = ''version-10.0.0''\<rparr>,
      \<lparr>tag_commit_id = ''B'', tag = ''version-11.0.0''\<rparr>] ''A'' = Some ''version-9.0.0''"
proof -
  let ?ct = "\<lparr>tag_commit_id = ''A'', tag = ''version-10.0.0''\<rparr>"
  let ?L = "[\<lparr>tag_commit_id = ''A'', tag = ''version-9.0.0''\<rparr>, ?ct,
             \<lparr>tag_commit_id = ''B'', tag = ''version-11.0.0''\<rparr>]"
  have m: "?ct \<in> set ?L" by simp
  have a: "id_to_newest_tag ?L (tag_commit_id ?ct) =
             Some (Max (tag ` {c \<in> set ?L. tag_commit_id c = tag_commit_id ?ct}))"
    using m by (rule newest_tag_is_lexicographic_max)
  have b: "id_to_newest_tag ?L ''A'' = Some ''version-9.0.0''" by code_simp
  from a b show ?thesis by simp
qed

section \<open>Per-message severity\<close>

text \<open>
  A rule set counts as matching exactly when one of its patterns is found in the stripped
  message, provided every pattern has a capturing group; then the order MAJOR, MINOR,
  PATCH, default holds. The default rule sets are of that kind.
\<close>

lemma first_groups_truthy:
  assumes "\<forall>r \<in> set spec. 0 < ngroups r"
  shows "truthy (first_groups spec text) \<longleftrightarrow> (\<exists>r \<in> set spec. re_search r text \<noteq> None)"
  using assms
proof (induction spec)
  case Nil
  then show ?case by (simp add: truthy_def)
next
  case (Cons r spec)
  then have g: "0 < ngroups r" by simp
  show ?case
  proof (cases "re_search r text")
    case None
    with Cons show ?thesis by simp
  next
    case (Some m)
    from g have "[1 ..< Suc (ngroups r)] \<noteq> []" by simp
    then have "groups r text m \<noteq> []" by (simp only: groups_def map_is_Nil_conv not_False_eq_True)
    with Some show ?thesis by (cases m) (simp add: truthy_def)
  qed
qed

lemma is_compliant_truthy:
  assumes "\<forall>r \<in> set spec. 0 < ngroups r"
  shows "truthy (is_compliant cm spec) \<longleftrightarrow>
           (\<exists>r \<in> set spec. re_search r (strip (message cm)) \<noteq> None)"
proof (cases "spec = []")
  case True
  then show ?thesis by (simp add: is_compliant_def truthy_def)
next
  case False
  then show ?thesis
    using first_groups_truthy [OF assms] by (simp add: is_compliant_def)
qed

lemma severity_order_with_groups:
  assumes "\<forall>r \<in> set major_regexs. 0 < ngroups r"
    and "\<forall>r \<in> set minor_regexs. 0 < ngroups r"
    and "\<forall>r \<in> set patch_regexs. 0 < ngroups r"
  shows "determine_semver_implication cm (Some major_regexs) (Some minor_regexs)
           (Some patch_regexs) default_semver_index =
         (if \<exists>r \<in> set major_regexs. re_search r (strip (message cm)) \<noteq> None then MAJOR_INDEX
          else if \<exists>r \<in> set minor_regexs. re_search r (strip (message cm)) \<noteq> None
          then MINOR_INDEX
          else if \<exists>r \<in> set patch_regexs. re_search r (strip (message cm)) \<noteq> None
          then PATCH_INDEX
          else default_semver_index)"
  by (simp only: determine_semver_implication_def Let_def option.case
                 is_compliant_truthy [OF assms(1)] is_compliant_truthy [OF assms(2)]
                 is_compliant_truthy [OF assms(3)])

lemma default_rules_have_groups:
  "\<forall>r \<in> set DEFAULT_MAJOR_REGEXS. 0 < ngroups r"
  "\<forall>r \<in> set DEFAULT_MINOR_REGEXS. 0 < ngroups r"
  "\<forall>r \<in> set DEFAULT_PATCH_REGEXS. 0 < ngroups r"
  by (simp_all add: DEFAULT_MAJOR_REGEXS_def DEFAULT_MINOR_REGEXS_def DEFAULT_PATCH_REGEXS_def
                    Seqs_def Opt_def Many1_def Str_def)

lemma severity_order_default_rules:
  "determine_semver_implication cm None None None default_semver_index =
     (if \<exists>r \<in> set DEFAULT_MAJOR_REGEXS. re_search r (strip (message cm)) \<noteq> None
      then MAJOR_INDEX
      else if \<exists>r \<in> set DEFAULT_MINOR_REGEXS. re_search r (strip (message cm)) \<noteq> None
      then MINOR_INDEX
      else if \<exists>r \<in> set DEFAULT_PATCH_REGEXS. re_search r (strip (message cm)) \<noteq> None
      then PATCH_INDEX
      else default_semver_index)"
  using severity_order_with_groups [OF default_rules_have_groups, of cm default_semver_index]
  by (simp only: determine_semver_implication_def Let_def option.case)

text \<open>
  Claim C7 (the code departs from it). For the default rule sets, and for any rule sets
  whose patterns all have a capturing group, the order MAJOR, MINOR, PATCH holds as
  claimed (the lemmas above), but not for every rule mapping: \<^verbatim>\<open>is_compliant\<close> returns
  \<^verbatim>\<open>match.groups()\<close> and the caller tests \<^verbatim>\<open>if reason:\<close>, so a pattern without a capturing
  group, whose \<^verbatim>\<open>groups()\<close> is the empty tuple, never counts as matching. With the MAJOR
  rule set \<^verbatim>\<open>[re.compile('BREAKING CHANGE')]\<close> the message \<^verbatim>\<open>fix: BREAKING CHANGE\<close> is
  found by the MAJOR pattern and still classified PATCH.
\<close>

theorem groupless_major_rule_is_skipped:
  "re_search (Str ''BREAKING CHANGE'') (strip ''fix: BREAKING CHANGE'') \<noteq> None
   \<and> determine_semver_implication
       \<lparr>commit_id = ''1'', author = ''a'', date = ''d'', message = ''fix: BREAKING CHANGE''\<rparr>
       (Some [Str ''BREAKING CHANGE'']) None None MINOR_INDEX = PATCH_INDEX"
  by code_simp

section \<open>Malformed log entries\<close>

lemma CommitMessage_make_isl:
  "isl (CommitMessage_make entry) \<longleftrightarrow> re_match MEDIUM_PRETTY_COMMIT_MATCHER entry = None"
  by (simp add: CommitMessage_make_def Let_def split: option.splits)

lemma make_entries_isl:
  "isl (make_entries entries) \<longleftrightarrow>
     (\<exists>entry \<in> set entries. re_match MEDIUM_PRETTY_COMMIT_MATCHER entry = None)"
proof (induction entries)
  case Nil
  then show ?case by simp
next
  case (Cons e es)
  show ?case
  proof (cases "CommitMessage_make e")
    case (Inl x)
    then have "re_match MEDIUM_PRETTY_COMMIT_MATCHER e = None"
      using CommitMessage_make_isl [of e] by simp
    with Inl show ?thesis by simp
  next
    case (Inr m)
    then have "re_match MEDIUM_PRETTY_COMMIT_MATCHER e \<noteq> None"
      using CommitMessage_make_isl [of e] by auto
    with Inr Cons show ?thesis by (cases "make_entries es") auto
  qed
qed

lemma make_entries_length:
  "make_entries entries = Inr ms \<Longrightarrow> length ms = length entries"
proof (induction entries arbitrary: ms)
  case Nil
  then show ?case by simp
next
  case (Cons e es)
  then show ?case by (auto split: sum.splits)
qed

text \<open>
  Claim C3, as amended. A block whose header does not match the commit-id/Author/Date
  shape makes the parse fail, and the failure is not local to that block:
  \<^verbatim>\<open>make_list_from_result\<close> raises for the whole blob and returns no record of any other
  block. It returns records, one per block, exactly when the header of every block
  matches.
\<close>

theorem malformed_block_fails_whole_parse:
  "((\<exists>entry \<in> set (all_entries response_text).
        re_match MEDIUM_PRETTY_COMMIT_MATCHER entry = None)
      \<longrightarrow> isl (make_list_from_result response_text))
   \<and> (\<not> (\<exists>entry \<in> set (all_entries response_text).
            re_match MEDIUM_PRETTY_COMMIT_MATCHER entry = None)
      \<longrightarrow> (\<exists>ms. make_list_from_result response_text = Inr ms
                \<and> length ms = length (all_entries response_text)))"
proof (intro conjI impI)
  assume "\<exists>entry \<in> set (all_entries response_text).
            re_match MEDIUM_PRETTY_COMMIT_MATCHER entry = None"
  then show "isl (make_list_from_result response_text)"
    unfolding make_list_from_result_def make_entries_isl .
next
  assume "\<not> (\<exists>entry \<in> set (all_entries response_text).
            re_match MEDIUM_PRETTY_COMMIT_MATCHER entry = None)"
  then have "\<not> isl (make_list_from_result response_text)"
    unfolding make_list_from_result_def make_entries_isl .
  then obtain ms where ms: "make_list_from_result response_text = Inr ms"
    by (cases "make_list_from_result response_text") auto
  then have "length ms = length (all_entries response_text)"
    unfolding make_list_from_result_def by (rule make_entries_length)
  with ms show "\<exists>ms. make_list_from_result response_text = Inr ms
                  \<and> length ms = length (all_entries response_text)"
    by blast
qed

text \<open>
  A blob of a well-formed block followed by a malformed one yields no record at all; the
  well-formed block alone yields its record.
\<close>

theorem malformed_block_fails_whole_parse_witness:
  "isl (make_list_from_result
         ''commit a\<newline>Author: x\<newline>Date:   d\<newline>\<newline>    m\<newline>\<newline>commit b\<newline>bogus'')
   \<and> (\<exists>ms. make_list_from_result ''commit a\<newline>Author: x\<newline>Date:   d\<newline>\<newline>    m\<newline>'' = Inr ms
          \<and> length ms = length (all_entries ''commit a\<newline>Author: x\<newline>Date:   d\<newline>\<newline>    m\<newline>''))"
proof -
  let ?u = "''commit a\<newline>Author: x\<newline>Date:   d\<newline>\<newline>    m\<newline>''"
  have ok: "\<not> (\<exists>entry \<in> set (all_entries ?u).
                 re_match MEDIUM_PRETTY_COMMIT_MATCHER entry = None)"
    by code_simp
  have good: "\<exists>ms. make_list_from_result ?u = Inr ms \<and> length ms = length (all_entries ?u)"
    using malformed_block_fails_whole_parse [of ?u] ok by (rule conjunct2 [THEN mp])
  let ?t = "''commit a\<newline>Author: x\<newline>Date:   d\<newline>\<newline>    m\<newline>\<newline>commit b\<newline>bogus''"
  have e: "all_entries ?t = [''a\<newline>Author: x\<newline>Date:   d\<newline>\<newline>    m\<newline>'', ''b\<newline>bogus'']"
    by code_simp
  have n: "re_match MEDIUM_PRETTY_COMMIT_MATCHER ''b\<newline>bogus'' = None"
    by code_simp
  have "\<exists>entry \<in> set (all_entries ?t). re_match MEDIUM_PRETTY_COMMIT_MATCHER entry = None"
    unfolding e using n by simp
  with malformed_block_fails_whole_parse [of ?t]
  have "isl (make_list_from_result ?t)" by (rule conjunct1 [THEN mp])
  then show ?thesis using good by (rule conjI)
qed

text \<open>
  The claim as stated fails on that blob: the first block is a well-formed entry, yet the
  whole parse ends in the \<^verbatim>\<open>AttributeError\<close> of the second, which carries no block text.
\<close>

theorem malformed_block_not_local_counterexample:
  "all_entries ''commit a\<newline>Author: x\<newline>Date:   d\<newline>\<newline>    m\<newline>\<newline>commit b\<newline>bogus''
     = [''a\<newline>Author: x\<newline>Date:   d\<newline>\<newline>    m\<newline>'', ''b\<newline>bogus'']
   \<and> CommitMessage_make ''a\<newline>Author: x\<newline>Date:   d\<newline>\<newline>    m\<newline>''
     = Inr \<lparr>commit_id = ''a'', author = ''x'', date = ''d'', message = ''    m''\<rparr>
   \<and> make_list_from_result
       ''commit a\<newline>Author: x\<newline>Date:   d\<newline>\<newline>    m\<newline>\<newline>commit b\<newline>bogus''
     = Inl AttributeError"
  by code_simp

section \<open>Text before the first commit line\<close>

lemma str_split_no_sep:
  "sep \<noteq> [] \<Longrightarrow> \<not> contains s sep \<Longrightarrow> str_split s sep = [s]"
  by (induction s) simp_all

lemma startswith_append_self: "startswith (sep @ r) sep"
  by (simp add: startswith_def)

lemma str_split_first:
  assumes "sep \<noteq> []" and "\<not> contains (pre @ butlast sep) sep"
  shows "str_split (pre @ sep @ r) sep = pre # str_split r sep"
  using assms(2)
proof (induction pre)
  case Nil
  from assms(1) obtain c cs where sep: "sep = c # cs" by (cases sep) auto
  have "str_split (sep @ r) sep = [] # str_split (drop (length sep) (sep @ r)) sep"
    using startswith_append_self [of sep r] assms(1) by (simp add: sep)
  then show ?case by simp
next
  case (Cons c pre)
  from Cons.prems have ns: "\<not> startswith (c # pre @ butlast sep) sep"
    and nc: "\<not> contains (pre @ butlast sep) sep" by simp_all
  have len: "length sep \<le> length (c # pre @ butlast sep)" by simp
  have "c # pre @ sep @ r = (c # pre @ butlast sep) @ (last sep # r)"
    using assms(1) by simp
  then have "take (length sep) (c # pre @ sep @ r) = take (length sep) (c # pre @ butlast sep)"
    using len by (metis take_append diff_is_0_eq take_0 append_Nil2)
  with ns have "\<not> startswith (c # pre @ sep @ r) sep" by (simp add: startswith_def)
  then show ?case using Cons.IH [OF nc] by simp
qed


lemma strip_all_space:
  assumes "\<forall>c \<in> set s. isspace c"
  shows "strip s = []"
proof -
  from assms have "dropWhile isspace (rev s) = []" by simp
  then show ?thesis by (simp only: strip_def lstrip_def rstrip_def rev.simps dropWhile.simps)
qed

lemma last_dropWhile_nonempty: "dropWhile P xs \<noteq> [] \<Longrightarrow> last (dropWhile P xs) = last xs"
  by (induction xs) (auto split: if_splits)

lemma strip_last: "strip s \<noteq> [] \<Longrightarrow> \<not> isspace (last (strip s))"
proof -
  assume ne: "strip s \<noteq> []"
  let ?d = "dropWhile isspace (rev s)"
  have r: "rstrip s = rev ?d" by (simp add: rstrip_def)
  have d: "?d \<noteq> []"
  proof
    assume "?d = []"
    then have "strip s = []"
      by (simp only: strip_def lstrip_def rstrip_def rev.simps dropWhile.simps)
    with ne show False by simp
  qed
  have "last (strip s) = last (rstrip s)"
    using ne unfolding strip_def lstrip_def by (rule last_dropWhile_nonempty)
  also have "\<dots> = hd ?d" using d by (simp add: r last_rev)
  finally show ?thesis using d hd_dropWhile [of isspace "rev s"] by simp
qed

lemma strip_id:
  assumes "s \<noteq> []" and "\<not> isspace (hd s)" and "\<not> isspace (last s)"
  shows "strip s = s"
proof -
  from assms(1) obtain x xs where rs: "rev s = x # xs" by (cases "rev s") auto
  with assms(1) have "last s = x" by (metis last_rev list.sel(1) rev_rev_ident)
  with assms(3) rs have "rstrip s = s" by (simp add: rstrip_def)
  moreover from assms(1,2) have "lstrip s = s" by (cases s) (simp_all add: lstrip_def)
  ultimately show ?thesis by (simp add: strip_def)
qed

lemma no_sep_in_its_front:
  "\<not> contains (newline # ''commit'') (newline # ''commit '')"
  by (simp add: startswith_def newline_def)

lemma all_entries_first:
  assumes "newline # strip text = pre @ (newline # ''commit '') @ r"
    and "\<not> contains (pre @ newline # ''commit'') (newline # ''commit '')"
  shows "all_entries text = str_split r (newline # ''commit '')"
proof -
  have "str_split (pre @ (newline # ''commit '') @ r) (newline # ''commit '') =
          pre # str_split r (newline # ''commit '')"
    using assms(2) by (intro str_split_first) simp_all
  then show ?thesis by (simp add: all_entries_def assms(1))
qed

text \<open>
  Claim C10, as amended. \<^verbatim>\<open>make_list_from_result\<close> works on the input stripped of its
  leading and trailing whitespace. It returns the empty list, and raises nothing, for an
  input of whitespace only (the empty input included) and for an input whose stripped
  text has no line that begins with \<^verbatim>\<open>commit \<close>; and when the stripped text has such a
  line, the text \<open>pre\<close> before the first one is discarded: the result is that of the
  entries cut from the text \<open>r\<close> after it, the same as for the input \<^verbatim>\<open>commit \<close> followed
  by \<open>r\<close>. (A line of a text begins with \<^verbatim>\<open>commit \<close> where a newline followed by
  \<^verbatim>\<open>commit \<close> occurs in the text with a newline put before it.)
\<close>

theorem parser_discards_leading_text:
  "((\<forall>c \<in> set text. isspace c) \<longrightarrow> make_list_from_result text = Inr [])
   \<and> (\<not> contains (newline # strip text) (newline # ''commit '')
        \<longrightarrow> make_list_from_result text = Inr [])
   \<and> (newline # strip text = pre @ (newline # ''commit '') @ r
        \<and> \<not> contains (pre @ newline # ''commit'') (newline # ''commit '')
        \<longrightarrow> make_list_from_result text = make_entries (str_split r (newline # ''commit ''))
          \<and> make_list_from_result text = make_list_from_result (''commit '' @ r))"
proof (intro conjI impI)
  assume "\<forall>c \<in> set text. isspace c"
  then have "strip text = []" by (rule strip_all_space)
  then show "make_list_from_result text = Inr []"
    by (simp add: make_list_from_result_def all_entries_def startswith_def)
next
  assume "\<not> contains (newline # strip text) (newline # ''commit '')"
  then have "str_split (newline # strip text) (newline # ''commit '') = [newline # strip text]"
    by (intro str_split_no_sep) simp_all
  then show "make_list_from_result text = Inr []"
    by (simp add: make_list_from_result_def all_entries_def)
next
  assume a: "newline # strip text = pre @ (newline # ''commit '') @ r
               \<and> \<not> contains (pre @ newline # ''commit'') (newline # ''commit '')"
  from a have eq: "newline # strip text = pre @ (newline # ''commit '') @ r"
    by (rule conjunct1)
  from a have nc: "\<not> contains (pre @ newline # ''commit'') (newline # ''commit '')"
    by (rule conjunct2)
  from eq nc have e: "all_entries text = str_split r (newline # ''commit '')"
    by (rule all_entries_first)
  from e show m: "make_list_from_result text = make_entries (str_split r (newline # ''commit ''))"
    by (simp add: make_list_from_result_def)
  from eq have ne: "strip text \<noteq> []" by (cases "strip text") auto
  then have nl: "\<not> isspace (last (strip text))" by (rule strip_last)
  have l: "last (newline # strip text) = last (strip text)" using ne by simp
  have r: "r \<noteq> []"
  proof
    assume "r = []"
    with eq l have "last (strip text) = CHR '' ''" by simp
    with nl show False by (simp add: isspace_def whitespace_def)
  qed
  with eq l have "last r = last (strip text)" by simp
  with nl r have h2: "\<not> isspace (last (''commit '' @ r))" by simp
  have h1: "\<not> isspace (hd (''commit '' @ r))" by (simp add: isspace_def whitespace_def)
  have h0: "''commit '' @ r \<noteq> []" by simp
  from h0 h1 h2 have s: "strip (''commit '' @ r) = ''commit '' @ r"
    by (rule strip_id)
  have "newline # strip (''commit '' @ r) = [] @ (newline # ''commit '') @ r"
    by (subst s) simp
  moreover have "\<not> contains ([] @ newline # ''commit'') (newline # ''commit '')"
    using no_sep_in_its_front by simp
  ultimately have "all_entries (''commit '' @ r) = str_split r (newline # ''commit '')"
    by (rule all_entries_first)
  with m show "make_list_from_result text = make_list_from_result (''commit '' @ r)"
    by (simp add: make_list_from_result_def)
qed

text \<open>
  Whitespace alone, a text with no commit line, and a text with a line of junk before
  its first commit line.
\<close>

theorem parser_discards_leading_text_witness:
  "make_list_from_result ''  \<newline> '' = Inr []
   \<and> make_list_from_result ''no commits here'' = Inr []
   \<and> make_list_from_result ''junk\<newline>commit a\<newline>Author: x\<newline>Date:   d\<newline>\<newline>    m''
     = make_list_from_result ''commit a\<newline>Author: x\<newline>Date:   d\<newline>\<newline>    m''"
proof -
  have h1: "\<forall>c \<in> set ''  \<newline> ''. isspace c" by code_simp
  have h2: "\<not> contains (newline # strip ''no commits here'') (newline # ''commit '')"
    by code_simp
  let ?t = "''junk\<newline>commit a\<newline>Author: x\<newline>Date:   d\<newline>\<newline>    m''"
  let ?r = "''a\<newline>Author: x\<newline>Date:   d\<newline>\<newline>    m''"
  have h3: "newline # strip ?t = (newline # ''junk'') @ (newline # ''commit '') @ ?r
             \<and> \<not> contains ((newline # ''junk'') @ newline # ''commit'') (newline # ''commit '')"
    by code_simp
  have c1: "make_list_from_result ''  \<newline> '' = Inr []"
    using parser_discards_leading_text [of "''  \<newline> ''"] h1 by blast
  have c2: "make_list_from_result ''no commits here'' = Inr []"
    using parser_discards_leading_text [of "''no commits here''"] h2 by blast
  have c3: "make_list_from_result ?t = make_list_from_result (''commit '' @ ?r)"
    using parser_discards_leading_text [of ?t "newline # ''junk''" ?r] h3 by blast
  from c1 c2 c3 show ?thesis by simp
qed

text \<open>
  The claim as stated fails, for it speaks of the lines of the input: in the text below
  no line begins with \<^verbatim>\<open>commit \<close> (the first line begins with a space, and no line has
  \<^verbatim>\<open>commit \<close> as its first seven characters), and yet the input is not discarded. The
  space is stripped first, and the record of the commit \<^verbatim>\<open>a\<close> is returned.
\<close>

theorem raw_commit_line_counterexample:
  "''commit '' \<notin> set (map (take (length ''commit ''))
       (str_split '' commit a\<newline>Author: x\<newline>Date:   d\<newline>\<newline>    m'' [newline]))
   \<and> \<not> contains (newline # '' commit a\<newline>Author: x\<newline>Date:   d\<newline>\<newline>    m'')
          (newline # ''commit '')
   \<and> make_list_from_result '' commit a\<newline>Author: x\<newline>Date:   d\<newline>\<newline>    m''
     = Inr [\<lparr>commit_id = ''a'', author = ''x'', date = ''d'', message = ''    m''\<rparr>]"
  by code_simp

section \<open>Embedded commits with inconsistent indentation\<close>

lemma prune_lines_None:
  "prune_lines prefix offset text_lines = None \<longleftrightarrow>
     (\<exists>line \<in> set text_lines. line \<noteq> [] \<and> \<not> startswith line prefix)"
  by (induction text_lines) auto

lemma unpack_embedded_commits_append:
  "unpack_embedded_commits (xs @ ys) =
     (case unpack_embedded_commits xs of
        (logs, Inl e) \<Rightarrow> (logs, Inl e)
      | (logs, Inr found) \<Rightarrow>
          (case unpack_embedded_commits ys of
             (logs', Inl e) \<Rightarrow> (logs @ logs', Inl e)
           | (logs', Inr result) \<Rightarrow> (logs @ logs', Inr (found @ result))))"
  by (induction xs) (auto split: prod.splits sum.splits)

text \<open>
  Claim C5. When the message of a record holds an embedded commit header and one of the
  lines from that header on is neither blank nor starts with the indentation found before
  \<^verbatim>\<open>commit\<close>, Pass A raises nothing for the record: it logs one warning and yields the
  record itself, unchanged, at its place among the results of the records before and
  after it.
\<close>

theorem inconsistent_indentation_keeps_record:
  assumes "re_search EMBEDDED_COMMIT_MATCHER (message cm) = Some found"
    and "\<exists>line \<in> set (str_split (drop (m_start found 1) (message cm)) [newline]).
           line \<noteq> [] \<and> \<not> startswith line (group (message cm) found 1)"
  shows "unpack_commit cm =
           ([LogWarning (message cm) (m_end found 1 - m_start found 1)], Inr [cm])
       \<and> unpack_embedded_commits (before @ cm # after) =
           (case unpack_embedded_commits before of
              (logs, Inl e) \<Rightarrow> (logs, Inl e)
            | (logs, Inr result) \<Rightarrow>
                (case unpack_embedded_commits after of
                   (logs', Inl e) \<Rightarrow>
                     (logs @ LogWarning (message cm) (m_end found 1 - m_start found 1) # logs',
                      Inl e)
                 | (logs', Inr result') \<Rightarrow>
                     (logs @ LogWarning (message cm) (m_end found 1 - m_start found 1) # logs',
                      Inr (result @ cm # result'))))"
proof -
  have p: "prune_lines (group (message cm) found 1) (m_end found 1 - m_start found 1)
             (str_split (drop (m_start found 1) (message cm)) [newline]) = None"
    using assms(2) by (simp only: prune_lines_None)
  have one: "unpack_commit cm =
           ([LogWarning (message cm) (m_end found 1 - m_start found 1)], Inr [cm])"
    by (simp only: unpack_commit_def Let_def assms(1) option.case p)
  have "unpack_embedded_commits (before @ cm # after) =
          unpack_embedded_commits (before @ [cm] @ after)" by simp
  then show ?thesis
    using one
    by (simp add: unpack_embedded_commits_append split: prod.splits sum.splits)
qed

text \<open>
  A merge message whose embedded header is indented by two spaces and whose body line by
  one: the record is kept, between the records before and after it.
\<close>

theorem inconsistent_indentation_keeps_record_witness:
  "unpack_embedded_commits
     [\<lparr>commit_id = ''B'', author = ''y'', date = ''e'', message = ''fix: one''\<rparr>,
      \<lparr>commit_id = ''C'', author = ''x'', date = ''d'',
       message = ''Merge\<newline>  commit abc\<newline>  Author: A\<newline>  Date:   D\<newline>\<newline> fix(a): b''\<rparr>,
      \<lparr>commit_id = ''D'', author = ''z'', date = ''f'', message = ''feat: two''\<rparr>]
   = ([LogWarning ''Merge\<newline>  commit abc\<newline>  Author: A\<newline>  Date:   D\<newline>\<newline> fix(a): b'' 2],
      Inr [\<lparr>commit_id = ''B'', author = ''y'', date = ''e'', message = ''fix: one''\<rparr>,
           \<lparr>commit_id = ''C'', author = ''x'', date = ''d'',
            message = ''Merge\<newline>  commit abc\<newline>  Author: A\<newline>  Date:   D\<newline>\<newline> fix(a): b''\<rparr>,
           \<lparr>commit_id = ''D'', author = ''z'', date = ''f'', message = ''feat: two''\<rparr>])"
proof -
  let ?msg = "''Merge\<newline>  commit abc\<newline>  Author: A\<newline>  Date:   D\<newline>\<newline> fix(a): b''"
  let ?cm = "\<lparr>commit_id = ''C'', author = ''x'', date = ''d'', message = ?msg\<rparr>"
  let ?b = "\<lparr>commit_id = ''B'', author = ''y'', date = ''e'', message = ''fix: one''\<rparr>"
  let ?a = "\<lparr>commit_id = ''D'', author = ''z'', date = ''f'', message = ''feat: two''\<rparr>"
  let ?found = "(rev ''Merge\<newline>  commit abc\<newline>  Author: A\<newline>  Date:   D\<newline>'',
                 ''\<newline> fix(a): b'', [(1, 6, 8)]) :: mstate"
  have f: "re_search EMBEDDED_COMMIT_MATCHER (message ?cm) = Some ?found" by code_simp
  have l: "\<exists>line \<in> set (str_split (drop (m_start ?found 1) (message ?cm)) [newline]).
             line \<noteq> [] \<and> \<not> startswith line (group (message ?cm) ?found 1)"
    by code_simp
  have b: "unpack_embedded_commits [?b] = ([], Inr [?b])" by code_simp
  have a: "unpack_embedded_commits [?a] = ([], Inr [?a])" by code_simp
  have w: "m_end ?found 1 - m_start ?found 1 = 2" by code_simp
  have "unpack_embedded_commits ([?b] @ ?cm # [?a]) =
          ([] @ LogWarning (message ?cm) 2 # [], Inr ([?b] @ ?cm # [?a]))"
    using inconsistent_indentation_keeps_record [OF f l, of "[?b]" "[?a]", THEN conjunct2]
    unfolding a b w by (simp only: prod.case sum.case)
  then show ?thesis by (simp del: unpack_embedded_commits.simps)
qed

section \<open>Embedded summaries\<close>

text \<open>The pairs of neighbours of a list, and the state of the loop after \<open>n\<close> lines.\<close>

lemma zip_tl_snoc:
  "zip (xs @ [a]) (tl (xs @ [a])) = zip xs (tl xs) @ (if xs = [] then [] else [(last xs, a)])"
proof (induction xs)
  case Nil
  then show ?case by simp
next
  case (Cons x xs)
  then show ?case by (cases xs) auto
qed

lemma zip_tl_end:
  "xs \<noteq> [] \<Longrightarrow> zip xs (tl xs @ [n]) = zip xs (tl xs) @ [(last xs, n)]"
proof (induction xs)
  case Nil
  then show ?case by simp
next
  case (Cons x xs)
  then show ?case by (cases xs) auto
qed

lemma summaries_loop_from:
  assumes P: "P = (\<lambda>i. re_match EMBEDDED_SUMMARY_MATCHER (lines ! i) \<noteq> None)"
    and "n \<le> length lines"
  shows "summaries_loop cm lines (drop n lines) n
           (if filter P [0 ..< n] = [] then - 1 else int (last (filter P [0 ..< n])))
           (map (\<lambda>(i, j). summary_block cm lines i j)
                (zip (filter P [0 ..< n]) (tl (filter P [0 ..< n]))))
         = ((if filter P [0 ..< length lines] = [] then - 1
             else int (last (filter P [0 ..< length lines]))),
            map (\<lambda>(i, j). summary_block cm lines i j)
                (zip (filter P [0 ..< length lines]) (tl (filter P [0 ..< length lines]))))"
  using assms(2)
proof (induction "length lines - n" arbitrary: n)
  case 0
  then show ?case by simp
next
  case (Suc k)
  then have lt: "n < length lines" by simp
  then have d: "drop n lines = lines ! n # drop (Suc n) lines"
    by (simp add: Cons_nth_drop_Suc)
  have k: "k = length lines - Suc n" using Suc.hyps(2) by simp
  have le: "Suc n \<le> length lines" using lt by simp
  note IH = Suc.hyps(1) [OF k le]
  let ?I = "filter P [0 ..< n]"
  show ?case
  proof (cases "P n")
    case True
    then have m: "re_match EMBEDDED_SUMMARY_MATCHER (lines ! n) \<noteq> None" by (simp add: P)
    have I: "filter P [0 ..< Suc n] = ?I @ [n]" using True by simp
    show ?thesis
      unfolding d
      apply (subst summaries_loop.simps)
      apply (simp only: m if_True)
      apply (subst IH [symmetric])
      apply (simp only: I zip_tl_snoc)
      apply (auto simp: summary_block_def)
      done
  next
    case False
    then have m: "\<not> re_match EMBEDDED_SUMMARY_MATCHER (lines ! n) \<noteq> None" by (simp add: P)
    have I: "filter P [0 ..< Suc n] = ?I" using False by simp
    show ?thesis
      unfolding d
      apply (subst summaries_loop.simps)
      apply (simp only: m if_False)
      apply (subst IH [symmetric])
      apply (simp only: I)
      apply simp
      done
  qed
qed


text \<open>
  Claim C2, as amended. For every record, Pass B emits one block per line that the summary
  pattern matches and no other: the block of a matching line runs from that line up to,
  and not including, the next matching line (or to the end of the message), joined and
  stripped on the right, and carries the commit_id, author and date of the record. When
  the first matching line is not the first line of the message, the text before it is in
  no block: it is discarded, and no additional block is emitted for it. A record with no
  matching line yields one block, its whole message.
\<close>

theorem embedded_summaries_blocks:
  "unpack_summaries cm =
     (let lines = str_split (message cm) [newline];
          idx = summary_indexes lines
      in if idx = [] then [summary_block cm lines 0 (length lines)]
         else map (\<lambda>(i, j). summary_block cm lines i j) (zip idx (tl idx @ [length lines])))
   \<and> (summary_indexes (str_split (message cm) [newline]) \<noteq> [] \<longrightarrow>
        length (unpack_summaries cm) = length (summary_indexes (str_split (message cm) [newline])))"
proof -
  define lines where "lines = str_split (message cm) [newline]"
  define P where "P = (\<lambda>i. re_match EMBEDDED_SUMMARY_MATCHER (lines ! i) \<noteq> None)"
  define idx where "idx = filter P [0 ..< length lines]"
  have idx: "summary_indexes lines = idx" by (simp add: summary_indexes_def idx_def P_def)
  have "summaries_loop cm lines (drop 0 lines) 0
          (if filter P [0 ..< 0] = [] then - 1 else int (last (filter P [0 ..< 0])))
          (map (\<lambda>(i, j). summary_block cm lines i j)
               (zip (filter P [0 ..< 0]) (tl (filter P [0 ..< 0]))))
        = ((if idx = [] then - 1 else int (last idx)),
           map (\<lambda>(i, j). summary_block cm lines i j) (zip idx (tl idx)))"
    unfolding idx_def by (rule summaries_loop_from [OF P_def]) simp
  then have loop: "summaries_loop cm lines lines 0 (- 1) []
        = ((if idx = [] then - 1 else int (last idx)),
           map (\<lambda>(i, j). summary_block cm lines i j) (zip idx (tl idx)))"
    by simp
  have u: "unpack_summaries cm =
             (if idx = [] then [summary_block cm lines 0 (length lines)]
              else map (\<lambda>(i, j). summary_block cm lines i j) (zip idx (tl idx @ [length lines])))"
  proof (cases "idx = []")
    case True
    then show ?thesis
      by (simp add: unpack_summaries_def Let_def lines_def [symmetric] loop summary_block_def
                    slice_def)
  next
    case False
    then show ?thesis
      by (auto simp add: unpack_summaries_def Let_def lines_def [symmetric] loop
                         summary_block_def slice_def zip_tl_end)
  qed
  have len: "length (unpack_summaries cm) = length idx" if "idx \<noteq> []"
    using that by (simp add: u)
  from u len show ?thesis
    by (simp add: Let_def lines_def [symmetric] idx)
qed

text \<open>
  A message of six lines whose second and fourth lines match: two blocks, and the first
  line in neither.
\<close>

theorem embedded_summaries_blocks_witness:
  "unpack_summaries
     \<lparr>commit_id = ''C'', author = ''x'', date = ''d'',
      message = ''intro\<newline>fix(a): b\<newline>more\<newline>* feat(x): y\<newline>\<newline>z  ''\<rparr>
   = [\<lparr>commit_id = ''C'', author = ''x'', date = ''d'', message = ''fix(a): b\<newline>more''\<rparr>,
      \<lparr>commit_id = ''C'', author = ''x'', date = ''d'', message = ''* feat(x): y\<newline>\<newline>z''\<rparr>]
   \<and> length (unpack_summaries
        \<lparr>commit_id = ''C'', author = ''x'', date = ''d'',
         message = ''intro\<newline>fix(a): b\<newline>more\<newline>* feat(x): y\<newline>\<newline>z  ''\<rparr>) = 2"
proof -
  let ?cm = "\<lparr>commit_id = ''C'', author = ''x'', date = ''d'',
      message = ''intro\<newline>fix(a): b\<newline>more\<newline>* feat(x): y\<newline>\<newline>z  ''\<rparr>"
  have r: "(let lines = str_split (message ?cm) [newline];
                idx = summary_indexes lines
            in if idx = [] then [summary_block ?cm lines 0 (length lines)]
               else map (\<lambda>(i, j). summary_block ?cm lines i j)
                        (zip idx (tl idx @ [length lines])))
           = [\<lparr>commit_id = ''C'', author = ''x'', date = ''d'', message = ''fix(a): b\<newline>more''\<rparr>,
              \<lparr>commit_id = ''C'', author = ''x'', date = ''d'',
               message = ''* feat(x): y\<newline>\<newline>z''\<rparr>]"
    by code_simp
  from embedded_summaries_blocks [of ?cm, THEN conjunct1] r
  have b: "unpack_summaries ?cm =
             [\<lparr>commit_id = ''C'', author = ''x'', date = ''d'', message = ''fix(a): b\<newline>more''\<rparr>,
              \<lparr>commit_id = ''C'', author = ''x'', date = ''d'',
               message = ''* feat(x): y\<newline>\<newline>z''\<rparr>]"
    by (rule trans)
  have i: "summary_indexes (str_split (message ?cm) [newline]) = [1, 3]" by code_simp
  have "length (unpack_summaries ?cm) = 2"
    using embedded_summaries_blocks [of ?cm, THEN conjunct2] unfolding i by simp
  with b show ?thesis by (rule conjI)
qed

text \<open>
  The claim as stated fails: the first matching line of this message is its second line,
  and the text before it is emitted in no block.
\<close>

theorem leading_text_block_counterexample:
  "re_match EMBEDDED_SUMMARY_MATCHER ''intro'' = None
   \<and> re_match EMBEDDED_SUMMARY_MATCHER ''fix(a): b'' \<noteq> None
   \<and> unpack_summaries
       \<lparr>commit_id = ''C'', author = ''x'', date = ''d'', message = ''intro\<newline>fix(a): b''\<rparr>
     = [\<lparr>commit_id = ''C'', author = ''x'', date = ''d'', message = ''fix(a): b''\<rparr>]"
  by code_simp

section \<open>The summary of a repository with pending commits\<close>

lemma on_list_range:
  assumes "msg_list \<noteq> []" and "d \<in> {MAJOR_INDEX, MINOR_INDEX, PATCH_INDEX}"
  shows "\<exists>i. determine_semver_implication_on_list msg_list ma mi pa d = Some i
             \<and> i \<in> {MAJOR_INDEX, MINOR_INDEX, PATCH_INDEX}"
proof -
  let ?f = "\<lambda>cm. determine_semver_implication cm ma mi pa d"
  let ?S = "?f ` set msg_list"
  let ?m = "Min (insert (PATCH_INDEX + 1) ?S)"
  have range: "?S \<subseteq> {MAJOR_INDEX, MINOR_INDEX, PATCH_INDEX}"
    using determine_semver_implication_range [of _ ma mi pa d] assms(2) by auto
  from assms(1) obtain x where x: "x \<in> ?S" by (cases msg_list) auto
  have "?m \<in> insert (PATCH_INDEX + 1) ?S" by (rule Min_in) simp_all
  moreover have "?m \<le> x" using x by (intro Min_le) simp_all
  moreover have "x \<le> PATCH_INDEX"
    using x range by (auto simp: MAJOR_INDEX_def MINOR_INDEX_def PATCH_INDEX_def)
  ultimately have "?m \<in> ?S" by auto
  with range have "?m \<in> {MAJOR_INDEX, MINOR_INDEX, PATCH_INDEX}" by blast
  moreover have "determine_semver_implication_on_list msg_list ma mi pa d = Some ?m"
    using assms(1) by (simp only: determine_semver_implication_on_list_def fold_min_Min if_False)
  ultimately show ?thesis by blast
qed

lemma SemanticVersion_next_total:
  "i \<in> {MAJOR_INDEX, MINOR_INDEX, PATCH_INDEX} \<Longrightarrow> \<exists>v'. SemanticVersion_next v (Some i) = Inr v'"
  by (auto simp: SemanticVersion_next_def)

text \<open>
  Claim C1, as amended. For every repository state with pending commits (HEAD carries no
  tag, a baseline tag is found among its ancestors, the log of the pending commits parses
  to a non-empty list and the baseline tag is well formed), the assembler classifies the
  parsed commit-log records as they are, without running them through the Normalizer; the
  proposed tag and version are the successor of the baseline version at that severity, and
  the commits of the resulting RepositorySummary are the parsed records.
\<close>

theorem summary_holds_parsed_commits:
  assumes "id_to_newest_tag (tag_commits git) (rev_parse_HEAD git) = None"
    and "baseline_loop (id_to_newest_tag (tag_commits git))
           (str_split (log_oneline git (rev_parse_HEAD git)) [newline]) None 0
         = (Some base_tag, count)"
    and "make_list_from_result (log_medium git count (rev_parse_HEAD git)) = Inr msgs"
    and "msgs \<noteq> []"
    and "SemanticVersion_make base_tag = Inr current_semver"
  shows "\<exists>next_semver.
           SemanticVersion_next current_semver
             (determine_semver_implication_on_list msgs None None None MINOR_INDEX)
           = Inr next_semver
         \<and> collect_repository_summary git git_dir =
             Inr \<lparr>summary_commit_id = rev_parse_HEAD git,
                  summary_tag = to_tag next_semver,
                  summary_version = to_version next_semver,
                  commit_messages = msgs\<rparr>"
proof -
  have q: "query_local_repository_commits_to_existing_tag_from_id git git_dir
             (rev_parse_HEAD git) (tag_commits git) = Inr (base_tag, msgs)"
    by (simp add: query_local_repository_commits_to_existing_tag_from_id_def Let_def
                  assms(1) assms(2) assms(3))
  obtain i where i: "determine_semver_implication_on_list msgs None None None MINOR_INDEX = Some i"
    and r: "i \<in> {MAJOR_INDEX, MINOR_INDEX, PATCH_INDEX}"
    using on_list_range [OF assms(4), of MINOR_INDEX None None None] by auto
  from r obtain v' where v': "SemanticVersion_next current_semver (Some i) = Inr v'"
    using SemanticVersion_next_total by blast
  have "collect_repository_summary git git_dir =
          Inr \<lparr>summary_commit_id = rev_parse_HEAD git, summary_tag = to_tag v',
               summary_version = to_version v', commit_messages = msgs\<rparr>"
    by (simp add: collect_repository_summary_def Let_def q assms(4) assms(5) i v')
  with i v' show ?thesis by simp
qed

text \<open>The example repository: the summary holds the one parsed record, as parsed.\<close>

theorem summary_holds_parsed_commits_witness:
  "map_sum id commit_messages (collect_repository_summary example_repository ''dir'')
   = Inr [\<lparr>commit_id = ''c0ffee'', author = ''x'', date = ''d'',
            message = ''    BREAKING CHANGE intro\<newline>    fix(a): b''\<rparr>]"
proof -
  let ?raw = "\<lparr>commit_id = ''c0ffee'', author = ''x'', date = ''d'',
               message = ''    BREAKING CHANGE intro\<newline>    fix(a): b''\<rparr>"
  have h1: "id_to_newest_tag (tag_commits example_repository)
              (rev_parse_HEAD example_repository) = None"
    by code_simp
  have h2: "baseline_loop (id_to_newest_tag (tag_commits example_repository))
              (str_split (log_oneline example_repository (rev_parse_HEAD example_repository))
                 [newline]) None 0
            = (Some ''version-1.0.0'', 1)"
    by code_simp
  have h3: "make_list_from_result
              (log_medium example_repository 1 (rev_parse_HEAD example_repository))
            = Inr [?raw]"
    by code_simp
  have h4: "[?raw] \<noteq> []" by simp
  have h5: "SemanticVersion_make ''version-1.0.0''
            = Inr \<lparr>series_name = ''version'', major = 1, minor = 0, patch = 0\<rparr>"
    by code_simp
  from summary_holds_parsed_commits [OF h1 h2 h3 h4 h5, of "''dir''"]
  obtain next_semver where
    "collect_repository_summary example_repository ''dir'' =
       Inr \<lparr>summary_commit_id = rev_parse_HEAD example_repository,
            summary_tag = to_tag next_semver, summary_version = to_version next_semver,
            commit_messages = [?raw]\<rparr>"
    by blast
  then show ?thesis by simp
qed

text \<open>
  The claim as stated fails on the example repository. The Normalizer would turn the
  parsed record into one record without the leading line, of severity PATCH; the summary
  holds the parsed record itself, and its tag is the MAJOR successor that the leading
  line of that record calls for.
\<close>

theorem summary_not_normalized_counterexample:
  "collect_repository_summary example_repository ''dir''
     = Inr \<lparr>summary_commit_id = ''c0ffee'', summary_tag = ''version-2.0.0'',
            summary_version = ''2.0.0'',
            commit_messages =
              [\<lparr>commit_id = ''c0ffee'', author = ''x'', date = ''d'',
                message = ''    BREAKING CHANGE intro\<newline>    fix(a): b''\<rparr>]\<rparr>
   \<and> normalize_message_list
       [\<lparr>commit_id = ''c0ffee'', author = ''x'', date = ''d'',
         message = ''    BREAKING CHANGE intro\<newline>    fix(a): b''\<rparr>]
     = ([], Inr [\<lparr>commit_id = ''c0ffee'', author = ''x'', date = ''d'',
                  message = ''    fix(a): b''\<rparr>])
   \<and> determine_semver_implication_on_list
       [\<lparr>commit_id = ''c0ffee'', author = ''x'', date = ''d'', message = ''    fix(a): b''\<rparr>]
       None None None MINOR_INDEX = Some PATCH_INDEX"
  by code_simp

section \<open>What the version pattern matches\<close>

lemma upt_Suc_shift: "[0 ..< Suc (Suc k)] = 0 # map Suc [0 ..< Suc k]"
  by (metis map_Suc_upt upt_conv_Cons zero_less_Suc)

lemma run_Star_class:
  assumes r: "\<And>st. run r st = step_if p st"
  shows "run (Star r) (b, a, g) =
           map (\<lambda>j. (rev (take j a) @ b, drop j a, g)) (rev [0 ..< Suc (length (takeWhile p a))])"
proof (induction a arbitrary: b)
  case Nil
  show ?case by (subst run.simps) (simp add: r step_if_def)
next
  case (Cons c a)
  show ?case
  proof (cases "p c")
    case True
    have "run (Star r) (b, c # a, g) = run (Star r) (c # b, a, g) @ [(b, c # a, g)]"
      by (subst run.simps) (simp add: r step_if_def True rest_def)
    also have "run (Star r) (c # b, a, g) =
        map (\<lambda>j. (rev (take j a) @ c # b, drop j a, g)) (rev [0 ..< Suc (length (takeWhile p a))])"
      by (rule Cons.IH)
    finally show ?thesis
      using True by (simp only: takeWhile.simps if_True length_Cons upt_Suc_shift)
                    (simp add: rev_map comp_def del: upt_Suc)
  next
    case False
    have "run (Star r) (b, c # a, g) = [(b, c # a, g)]"
      by (subst run.simps) (simp add: r step_if_def False)
    then show ?thesis using False by simp
  qed
qed

lemma run_Many1_class:
  assumes r: "\<And>st. run r st = step_if p st"
  shows "run (Many1 r) (b, a, g) =
           map (\<lambda>j. (rev (take j a) @ b, drop j a, g)) (rev [1 ..< Suc (length (takeWhile p a))])"
proof (cases a)
  case Nil
  then show ?thesis by (simp add: Many1_def r step_if_def)
next
  case (Cons c a')
  show ?thesis
  proof (cases "p c")
    case True
    have "run (Many1 r) (b, a, g) = run (Star r) (c # b, a', g)"
      by (simp add: Many1_def r step_if_def Cons True del: run.simps(8))
    also have "\<dots> = map (\<lambda>j. (rev (take j a') @ c # b, drop j a', g))
                         (rev [0 ..< Suc (length (takeWhile p a'))])"
      by (rule run_Star_class [OF r])
    also have "\<dots> = map (\<lambda>j. (rev (take j a) @ b, drop j a, g))
                         (rev (map Suc [0 ..< Suc (length (takeWhile p a'))]))"
      by (simp add: rev_map comp_def Cons del: upt_Suc)
    finally show ?thesis
      using True by (simp only: map_Suc_upt Cons takeWhile.simps if_True length_Cons One_nat_def)
  next
    case False
    then show ?thesis by (simp add: Many1_def r step_if_def Cons)
  qed
qed

lemma run_Group_Many1_class:
  assumes r: "\<And>st. run r st = step_if p st"
  shows "run (Group n (Many1 r)) (b, a, g) =
           map (\<lambda>j. (rev (take j a) @ b, drop j a, (n, length b, length b + j) # g))
               (rev [1 ..< Suc (length (takeWhile p a))])"
proof -
  have le: "length (takeWhile p a) \<le> length a" by (rule length_takeWhile_le)
  show ?thesis
    using le by (simp add: run_Many1_class [OF r] close_group_def comp_def min_def)
qed

lemma run_Seq_Chr:
  "run (Seq (Chr x) X) (b, a, g) =
     (case a of [] \<Rightarrow> [] | c # a' \<Rightarrow> if c = x then run X (c # b, a', g) else [])"
  by (simp add: step_if_def split: list.splits)


lemma concat_map_Nil: "(\<And>x. x \<in> set xs \<Longrightarrow> f x = []) \<Longrightarrow> concat (map f xs) = []"
  by (induction xs) simp_all

lemma run_number_then:
  assumes r: "\<And>st. run r st = step_if p st" and x: "\<not> p x"
  shows "run (Seq (Group n (Many1 r)) (Seq (Chr x) X)) (b, a, g) =
           (if takeWhile p a \<noteq> [] \<and> (\<exists>a'. dropWhile p a = x # a')
            then run X (x # rev (takeWhile p a) @ b, tl (dropWhile p a),
                        (n, length b, length b + length (takeWhile p a)) # g)
            else [])"
proof -
  let ?k = "length (takeWhile p a)"
  let ?F = "\<lambda>j. run (Seq (Chr x) X)
                   (rev (take j a) @ b, drop j a, (n, length b, length b + j) # g)"
  have run: "run (Seq (Group n (Many1 r)) (Seq (Chr x) X)) (b, a, g) =
               concat (map ?F (rev [1 ..< Suc ?k]))"
    by (subst run.simps) (simp only: run_Group_Many1_class [OF r] map_map comp_def)
  have small: "?F j = []" if "j \<in> set (rev [1 ..< ?k])" for j
  proof -
    from that have j: "j < ?k" by simp
    have "?k \<le> length a" by (rule length_takeWhile_le)
    with j have ja: "j < length a" by simp
    have "a ! j = takeWhile p a ! j" using j by (simp add: takeWhile_nth)
    also have "\<dots> \<in> set (takeWhile p a)" using j by simp
    finally have "p (a ! j)" by (rule set_takeWhileD [THEN conjunct2])
    with x have "a ! j \<noteq> x" by auto
    moreover have "drop j a = a ! j # drop (Suc j) a" using ja by (simp add: Cons_nth_drop_Suc)
    ultimately show ?thesis by (subst run_Seq_Chr) simp
  qed
  show ?thesis
  proof (cases "?k = 0")
    case True
    then show ?thesis by (subst run) simp
  next
    case False
    then have "1 \<le> ?k" by (cases "takeWhile p a") simp_all
    then have "[1 ..< Suc ?k] = [1 ..< ?k] @ [?k]" by (rule upt_Suc_append)
    then have "run (Seq (Group n (Many1 r)) (Seq (Chr x) X)) (b, a, g) =
                 ?F ?k @ concat (map ?F (rev [1 ..< ?k]))"
      by (simp only: run rev_append rev.simps append_Nil map_append list.map concat_append
                     concat.simps append_Nil2 append_Cons)
    also have "concat (map ?F (rev [1 ..< ?k])) = []"
      by (rule concat_map_Nil) (rule small)
    finally have "run (Seq (Group n (Many1 r)) (Seq (Chr x) X)) (b, a, g) = ?F ?k" by simp
    moreover have "take ?k a = takeWhile p a" by (rule takeWhile_eq_take [symmetric])
    moreover have "drop ?k a = dropWhile p a" by (rule dropWhile_eq_drop [symmetric])
    ultimately have eq: "run (Seq (Group n (Many1 r)) (Seq (Chr x) X)) (b, a, g) =
        (case dropWhile p a of [] \<Rightarrow> []
         | c # a' \<Rightarrow> if c = x
             then run X (c # rev (takeWhile p a) @ b, a', (n, length b, length b + ?k) # g)
             else [])"
      by (simp only: run_Seq_Chr)
    have "(case dropWhile p a of [] \<Rightarrow> []
         | c # a' \<Rightarrow> if c = x
             then run X (c # rev (takeWhile p a) @ b, a', (n, length b, length b + ?k) # g)
             else []) =
          (if takeWhile p a \<noteq> [] \<and> (\<exists>a'. dropWhile p a = x # a')
            then run X (x # rev (takeWhile p a) @ b, tl (dropWhile p a),
                        (n, length b, length b + length (takeWhile p a)) # g)
            else [])"
    proof (cases "dropWhile p a")
      case Nil
      show ?thesis unfolding Nil by simp
    next
      case (Cons c a')
      show ?thesis unfolding Cons using False by auto
    qed
    with eq show ?thesis by (rule trans)
  qed
qed

lemma run_number_end:
  assumes r: "\<And>st. run r st = step_if p st"
  shows "run (Seq (Group n (Many1 r)) Eps) (b, a, g) =
           map (\<lambda>j. (rev (take j a) @ b, drop j a, (n, length b, length b + j) # g))
               (rev [1 ..< Suc (length (takeWhile p a))])"
proof -
  have e: "run Eps = (\<lambda>st. [st])" by (rule ext) simp
  have "run (Seq (Group n (Many1 r)) Eps) (b, a, g) = run (Group n (Many1 r)) (b, a, g)"
    by (subst run.simps(6)) (simp only: e concat_map_singleton list.map_ident)
  then show ?thesis by (simp only: run_Group_Many1_class [OF r])
qed

lemma run_OneOf: "run (OneOf xs) st = step_if (\<lambda>c. c \<in> set xs) st"
  by simp

lemma run_Dot: "run Dot st = step_if (\<lambda>c. c \<noteq> newline) st"
  by simp

lemma run_series_then:
  "run (Seq (Group n (Many1 Dot)) X) (b, a, g) =
     concat (map (\<lambda>j. run X (rev (take j a) @ b, drop j a, (n, length b, length b + j) # g))
                 (rev [1 ..< Suc (length (takeWhile (\<lambda>c. c \<noteq> newline) a))]))"
  by (subst run.simps) (simp only: run_Group_Many1_class [OF run_Dot] map_map comp_def)


lemma dot_not_digit: "\<not> CHR ''.'' \<in> set digits"
  by (simp add: digits_def)

lemma span_number:
  assumes "is_number d" and "\<not> x \<in> set digits"
  shows "takeWhile (\<lambda>c. c \<in> set digits) (d @ x # a) = d"
    and "dropWhile (\<lambda>c. c \<in> set digits) (d @ x # a) = x # a"
proof -
  from assms(1) have all: "\<And>c. c \<in> set d \<Longrightarrow> c \<in> set digits"
    by (simp add: is_number_def list_all_iff)
  show "takeWhile (\<lambda>c. c \<in> set digits) (d @ x # a) = d"
    using all assms(2) by simp
  show "dropWhile (\<lambda>c. c \<in> set digits) (d @ x # a) = x # a"
    using all assms(2) by simp
qed

lemma span_number_end:
  assumes "is_number d"
  shows "takeWhile (\<lambda>c. c \<in> set digits) d = d"
  using assms by (simp add: is_number_def list_all_iff)

lemma is_number_takeWhile:
  "takeWhile (\<lambda>c. c \<in> set digits) a \<noteq> [] \<Longrightarrow> is_number (takeWhile (\<lambda>c. c \<in> set digits) a)"
  by (auto simp: is_number_def list_all_iff dest: set_takeWhileD)

lemma SEMVER_MATCHER_unfold:
  "SEMVER_MATCHER =
     Seq (Group 1 (Many1 Dot))
       (Seq (Chr CHR ''-'')
          (Seq (Group 2 (Many1 (OneOf digits)))
             (Seq (Chr CHR ''.'')
                (Seq (Group 3 (Many1 (OneOf digits)))
                   (Seq (Chr CHR ''.'') (Seq (Group 4 (Many1 (OneOf digits))) Eps))))))"
  by (simp add: SEMVER_MATCHER_def Seqs_def)

text \<open>The pattern after the series: what it matches, and its matches on a version text.\<close>

lemma version_tail_exact:
  assumes "is_number ma" and "is_number mi" and "is_number pa"
  shows "run (Seq (Chr CHR ''-'')
            (Seq (Group 2 (Many1 (OneOf digits)))
               (Seq (Chr CHR ''.'')
                  (Seq (Group 3 (Many1 (OneOf digits)))
                     (Seq (Chr CHR ''.'') (Seq (Group 4 (Many1 (OneOf digits))) Eps))))))
           (b, ''-'' @ ma @ ''.'' @ mi @ ''.'' @ pa @ tr, g)
         = map (\<lambda>j. (rev (take j (pa @ tr)) @ CHR ''.'' # rev mi @ CHR ''.'' # rev ma @ CHR ''-'' # b,
                      drop j (pa @ tr),
                      (4, length b + length ma + length mi + 3,
                          length b + length ma + length mi + 3 + j)
                      # (3, length b + length ma + 2, length b + length ma + 2 + length mi)
                      # (2, Suc (length b), Suc (length b) + length ma) # g))
               (rev [1 ..< Suc (length (takeWhile (\<lambda>c. c \<in> set digits) (pa @ tr)))])"
proof -
  note s1 = span_number [OF assms(1) dot_not_digit]
  note s2 = span_number [OF assms(2) dot_not_digit]
  have n1: "ma \<noteq> []" and n2: "mi \<noteq> []" using assms by (simp_all add: is_number_def)
  show ?thesis
    apply (simp only: append_Cons append_Nil)
    apply (subst run_Seq_Chr)
    apply (simp only: list.case if_True)
    apply (subst run_number_then [OF run_OneOf dot_not_digit])
    apply (simp only: s1 n1 list.sel)
    apply (simp only: simp_thms list.inject ex_simps if_True)
    apply (subst run_number_then [OF run_OneOf dot_not_digit])
    apply (simp only: s2 n2 list.sel)
    apply (simp only: simp_thms list.inject ex_simps if_True)
    apply (subst run_number_end [OF run_OneOf])
    apply (simp add: add.commute add.left_commute)
    done
qed


lemma chr_nonempty:
  assumes "run (Seq (Chr x) X) (b, a, g) \<noteq> []"
  obtains a' where "a = x # a'" and "run X (x # b, a', g) \<noteq> []"
proof (cases a)
  case Nil
  with assms show ?thesis by (simp only: run_Seq_Chr list.case) simp
next
  case (Cons c a')
  with assms have "c = x" and "run X (x # b, a', g) \<noteq> []"
    by (auto simp only: run_Seq_Chr list.case split: if_splits)
  with Cons that show ?thesis by simp
qed

lemma number_then_nonempty:
  assumes r: "\<And>st. run r st = step_if p st" and x: "\<not> p x"
    and ne: "run (Seq (Group n (Many1 r)) (Seq (Chr x) X)) (b, a, g) \<noteq> []"
  obtains a' where "takeWhile p a \<noteq> []" and "dropWhile p a = x # a'"
    and "run X (x # rev (takeWhile p a) @ b, a',
                (n, length b, length b + length (takeWhile p a)) # g) \<noteq> []"
proof -
  from ne have c: "takeWhile p a \<noteq> [] \<and> (\<exists>a'. dropWhile p a = x # a')"
    unfolding run_number_then [OF r x] by (auto split: if_splits)
  then obtain a' where d: "dropWhile p a = x # a'" by blast
  from ne c have "run X (x # rev (takeWhile p a) @ b, tl (dropWhile p a),
                (n, length b, length b + length (takeWhile p a)) # g) \<noteq> []"
    unfolding run_number_then [OF r x] by (simp only: if_True simp_thms)
  with c d that show ?thesis by simp
qed

lemma number_end_nonempty:
  assumes r: "\<And>st. run r st = step_if p st"
    and ne: "run (Seq (Group n (Many1 r)) Eps) (b, a, g) \<noteq> []"
  shows "takeWhile p a \<noteq> []"
proof
  assume "takeWhile p a = []"
  then have "run (Seq (Group n (Many1 r)) Eps) (b, a, g) = []"
    unfolding run_number_end [OF r] by simp
  with ne show False by simp
qed

lemma version_tail_nonempty_iff:
  "run (Seq (Chr CHR ''-'')
          (Seq (Group 2 (Many1 (OneOf digits)))
             (Seq (Chr CHR ''.'')
                (Seq (Group 3 (Many1 (OneOf digits)))
                   (Seq (Chr CHR ''.'') (Seq (Group 4 (Many1 (OneOf digits))) Eps))))))
       (b, a, g) \<noteq> []
   \<longleftrightarrow> (\<exists>ma mi pa tr. a = ''-'' @ ma @ ''.'' @ mi @ ''.'' @ pa @ tr
          \<and> is_number ma \<and> is_number mi \<and> is_number pa)"
  (is "?L \<longleftrightarrow> ?R")
proof
  assume ?L
  then obtain a1 where a: "a = CHR ''-'' # a1"
    and 1: "run (Seq (Group 2 (Many1 (OneOf digits)))
             (Seq (Chr CHR ''.'')
                (Seq (Group 3 (Many1 (OneOf digits)))
                   (Seq (Chr CHR ''.'') (Seq (Group 4 (Many1 (OneOf digits))) Eps)))))
             (CHR ''-'' # b, a1, g) \<noteq> []"
    by (rule chr_nonempty)
  let ?dig = "\<lambda>c. c \<in> set digits"
  from 1 obtain a2 where t1: "takeWhile ?dig a1 \<noteq> []" and d1: "dropWhile ?dig a1 = CHR ''.'' # a2"
    and 2: "run (Seq (Group 3 (Many1 (OneOf digits)))
                   (Seq (Chr CHR ''.'') (Seq (Group 4 (Many1 (OneOf digits))) Eps)))
             (CHR ''.'' # rev (takeWhile ?dig a1) @ CHR ''-'' # b, a2,
              (2, length (CHR ''-'' # b),
                  length (CHR ''-'' # b) + length (takeWhile ?dig a1)) # g) \<noteq> []"
    by (rule number_then_nonempty [OF run_OneOf dot_not_digit])
  from 2 obtain a3 where t2: "takeWhile ?dig a2 \<noteq> []" and d2: "dropWhile ?dig a2 = CHR ''.'' # a3"
    and 3: "run (Seq (Group 4 (Many1 (OneOf digits))) Eps)
             (CHR ''.'' # rev (takeWhile ?dig a2) @ CHR ''.'' # rev (takeWhile ?dig a1) @ CHR ''-'' # b, a3,
              (3, length (CHR ''.'' # rev (takeWhile ?dig a1) @ CHR ''-'' # b),
                  length (CHR ''.'' # rev (takeWhile ?dig a1) @ CHR ''-'' # b)
                    + length (takeWhile ?dig a2))
              # (2, length (CHR ''-'' # b),
                  length (CHR ''-'' # b) + length (takeWhile ?dig a1)) # g) \<noteq> []"
    by (rule number_then_nonempty [OF run_OneOf dot_not_digit])
  from 3 have t3: "takeWhile ?dig a3 \<noteq> []"
    by (rule number_end_nonempty [OF run_OneOf])
  have "a1 = takeWhile ?dig a1 @ dropWhile ?dig a1" by simp
  moreover have "a2 = takeWhile ?dig a2 @ dropWhile ?dig a2" by simp
  moreover have "a3 = takeWhile ?dig a3 @ dropWhile ?dig a3" by simp
  ultimately have "a = ''-'' @ takeWhile ?dig a1 @ ''.'' @ takeWhile ?dig a2 @ ''.''
                       @ takeWhile ?dig a3 @ dropWhile ?dig a3"
    unfolding a d1 d2 by (metis append_Cons append_Nil)
  with t1 t2 t3 show ?R
    using is_number_takeWhile by blast
next
  assume ?R
  then obtain ma mi pa tr where a: "a = ''-'' @ ma @ ''.'' @ mi @ ''.'' @ pa @ tr"
    and n: "is_number ma" "is_number mi" "is_number pa" by blast
  from n(3) have "takeWhile (\<lambda>c. c \<in> set digits) (pa @ tr) \<noteq> []"
    by (cases pa) (simp_all add: is_number_def)
  then have "rev [1 ..< Suc (length (takeWhile (\<lambda>c. c \<in> set digits) (pa @ tr)))] \<noteq> []"
    by (cases "takeWhile (\<lambda>c. c \<in> set digits) (pa @ tr)") simp_all
  then show ?L
    unfolding a version_tail_exact [OF n] by (simp only: map_is_Nil_conv not_False_eq_True)
qed


lemma concat_map_nonempty_iff: "concat (map f xs) \<noteq> [] \<longleftrightarrow> (\<exists>x \<in> set xs. f x \<noteq> [])"
  by (induction xs) auto

lemma Bex_rev_upt: "(\<exists>j \<in> set (rev [1 ..< Suc k]). P j) \<longleftrightarrow> (\<exists>j. 1 \<le> j \<and> j \<le> k \<and> P j)"
  by (auto simp: less_Suc_eq_le)

lemma re_match_None_iff: "re_match r t = None \<longleftrightarrow> run r ([], t, []) = []"
  by (simp add: re_match_def split: list.splits)

lemma semver_match_iff: "re_match SEMVER_MATCHER t \<noteq> None \<longleftrightarrow> tag_prefix_form t"
proof -
  let ?T = "Seq (Chr CHR ''-'')
          (Seq (Group 2 (Many1 (OneOf digits)))
             (Seq (Chr CHR ''.'')
                (Seq (Group 3 (Many1 (OneOf digits)))
                   (Seq (Chr CHR ''.'') (Seq (Group 4 (Many1 (OneOf digits))) Eps)))))"
  let ?nn = "\<lambda>c. c \<noteq> newline"
  let ?k = "length (takeWhile ?nn t)"
  let ?V = "\<lambda>a. \<exists>ma mi pa tr. a = ''-'' @ ma @ ''.'' @ mi @ ''.'' @ pa @ tr
                \<and> is_number ma \<and> is_number mi \<and> is_number pa"
  have run: "run SEMVER_MATCHER ([], t, []) =
               concat (map (\<lambda>j. run ?T (rev (take j t) @ [], drop j t,
                                         [(1, length ([] :: string), length ([] :: string) + j)]))
                           (rev [1 ..< Suc ?k]))"
    unfolding SEMVER_MATCHER_unfold by (rule run_series_then)
  have "run SEMVER_MATCHER ([], t, []) \<noteq> [] \<longleftrightarrow> (\<exists>j. 1 \<le> j \<and> j \<le> ?k \<and> ?V (drop j t))"
    unfolding run concat_map_nonempty_iff version_tail_nonempty_iff Bex_rev_upt ..
  also have "\<dots> \<longleftrightarrow> tag_prefix_form t"
  proof
    assume "\<exists>j. 1 \<le> j \<and> j \<le> ?k \<and> ?V (drop j t)"
    then obtain j ma mi pa tr where j: "1 \<le> j" "j \<le> ?k"
      and d: "drop j t = ''-'' @ ma @ ''.'' @ mi @ ''.'' @ pa @ tr"
      and n: "is_number ma" "is_number mi" "is_number pa" by blast
    have kt: "?k \<le> length t" by (rule length_takeWhile_le)
    have tk: "takeWhile ?nn t = take ?k t" by (rule takeWhile_eq_take)
    have "take j (takeWhile ?nn t) = take j (take ?k t)" by (rule arg_cong [OF tk])
    also have "\<dots> = take j t" using j(2) by (simp add: min_def)
    finally have "take j t = take j (takeWhile ?nn t)" by (rule sym)
    then have "set (take j t) \<subseteq> set (takeWhile ?nn t)" by (simp add: set_take_subset)
    then have nl: "newline \<notin> set (take j t)" by (auto dest: set_takeWhileD)
    have ne: "take j t \<noteq> []" using j kt by auto
    have "t = take j t @ ''-'' @ ma @ ''.'' @ mi @ ''.'' @ pa @ tr"
      using d by (metis append_take_drop_id)
    with ne nl n show "tag_prefix_form t" unfolding tag_prefix_form_def by blast
  next
    assume "tag_prefix_form t"
    then obtain series ma mi pa tr where
      t: "t = series @ ''-'' @ ma @ ''.'' @ mi @ ''.'' @ pa @ tr"
      and s: "series \<noteq> []" "newline \<notin> set series"
      and n: "is_number ma" "is_number mi" "is_number pa"
      unfolding tag_prefix_form_def by blast
    have "takeWhile ?nn t = series @ takeWhile ?nn (''-'' @ ma @ ''.'' @ mi @ ''.'' @ pa @ tr)"
      unfolding t using s(2) by (intro takeWhile_append2) auto
    then have "length series \<le> ?k" by simp
    moreover have "1 \<le> length series" using s(1) by (cases series) simp_all
    moreover have "drop (length series) t = ''-'' @ ma @ ''.'' @ mi @ ''.'' @ pa @ tr"
      unfolding t by simp
    ultimately show "\<exists>j. 1 \<le> j \<and> j \<le> ?k \<and> ?V (drop j t)" using n by blast
  qed
  finally show ?thesis by (simp add: re_match_None_iff)
qed

section \<open>Formatting and parsing a version\<close>

lemma digit_char:
  assumes "d < 10"
  shows "char_of (48 + d :: nat) \<in> set digits"
    and "int (of_char (char_of (48 + d :: nat))) - 48 = int d"
proof -
  have all: "\<forall>d \<in> set [0 ..< 10 :: nat].
               char_of (48 + d) \<in> set digits
               \<and> int (of_char (char_of (48 + d))) - 48 = int d"
    by code_simp
  from assms have "d \<in> set [0 ..< 10]" by simp
  with all show "char_of (48 + d :: nat) \<in> set digits"
    and "int (of_char (char_of (48 + d :: nat))) - 48 = int d"
    by blast+
qed

lemma str_of_nat_number: "is_number (str_of_nat n)"
proof (induction n rule: str_of_nat.induct)
  case (1 n)
  show ?case
  proof (cases "n < 10")
    case True
    then show ?thesis
      by (subst str_of_nat.simps) (simp add: is_number_def digit_char(1))
  next
    case False
    with 1 have "is_number (str_of_nat (n div 10))" by simp
    moreover have "char_of (48 + n mod 10) \<in> set digits" by (rule digit_char(1)) simp
    ultimately show ?thesis
      using False by (subst str_of_nat.simps) (simp add: is_number_def)
  qed
qed

lemma int_of_str_snoc:
  "int_of_str (xs @ [c]) = 10 * int_of_str xs + (int (of_char c) - 48)"
  by (simp add: int_of_str_def)

lemma int_of_str_str_of_nat: "int_of_str (str_of_nat n) = int n"
proof (induction n rule: str_of_nat.induct)
  case (1 n)
  show ?case
  proof (cases "n < 10")
    case True
    then show ?thesis
      by (subst str_of_nat.simps) (simp add: int_of_str_def digit_char(2))
  next
    case False
    with 1 have "int_of_str (str_of_nat (n div 10)) = int (n div 10)" by simp
    moreover have "int (of_char (char_of (48 + n mod 10))) - 48 = int (n mod 10)"
      by (rule digit_char(2)) simp
    ultimately have "int_of_str (str_of_nat (n div 10) @ [char_of (48 + n mod 10)]) = int n"
      by (simp only: int_of_str_snoc) (simp add: zmod_int zdiv_int)
    then show ?thesis using False by (subst str_of_nat.simps) simp
  qed
qed


lemma slice_mid: "slice (xs @ ys @ zs) (length xs) (length xs + length ys) = ys"
  by (simp add: slice_def)

lemma number_chars:
  assumes "is_number d" and "c \<in> set d"
  shows "c \<noteq> CHR ''-'' \<and> c \<noteq> newline"
proof -
  from assms have "c \<in> set digits" by (simp add: is_number_def list_all_iff)
  then show ?thesis by (auto simp: digits_def newline_def)
qed

lemma semver_make_exact:
  assumes s: "series \<noteq> []" "newline \<notin> set series"
    and n: "is_number ma" "is_number mi" "is_number pa"
  shows "SemanticVersion_make (series @ ''-'' @ ma @ ''.'' @ mi @ ''.'' @ pa) =
           Inr \<lparr>series_name = series, major = int_of_str ma, minor = int_of_str mi,
                patch = int_of_str pa\<rparr>"
proof -
  define body where "body = ma @ ''.'' @ mi @ ''.'' @ pa"
  define t where "t = series @ ''-'' @ body"
  define T where "T = Seq (Chr CHR ''-'')
          (Seq (Group 2 (Many1 (OneOf digits)))
             (Seq (Chr CHR ''.'')
                (Seq (Group 3 (Many1 (OneOf digits)))
                   (Seq (Chr CHR ''.'') (Seq (Group 4 (Many1 (OneOf digits))) Eps)))))"
  define F where "F = (\<lambda>j. run T (rev (take j t) @ [], drop j t,
                                    [(1, length ([] :: string), length ([] :: string) + j)]))"
  define k where "k = length series"
  define L where "L = length t"
  define st0 :: mstate where "st0 =
     (rev pa @ CHR ''.'' # rev mi @ CHR ''.'' # rev ma @ CHR ''-'' # rev series, [],
      [(4, k + length ma + length mi + 3, k + length ma + length mi + 3 + length pa),
       (3, k + length ma + 2, k + length ma + 2 + length mi),
       (2, Suc k, Suc k + length ma), (1, 0, k)])"
  have body: "c \<noteq> CHR ''-'' \<and> c \<noteq> newline" if "c \<in> set body" for c
  proof -
    from that consider "c \<in> set ma" | "c = CHR ''.''" | "c \<in> set mi" | "c \<in> set pa"
      by (auto simp: body_def)
    then show ?thesis
    proof cases
      case 1
      with n(1) show ?thesis by (rule number_chars)
    next
      case 2
      then show ?thesis by (simp add: newline_def)
    next
      case 3
      with n(2) show ?thesis by (rule number_chars)
    next
      case 4
      with n(3) show ?thesis by (rule number_chars)
    qed
  qed
  have "\<forall>c \<in> set t. c \<noteq> newline"
    using s(2) body by (auto simp: t_def newline_def)
  then have nn: "takeWhile (\<lambda>c. c \<noteq> newline) t = t" by simp
  have "run (Seq (Group 1 (Many1 Dot)) T) ([], t, []) =
          concat (map F (rev [1 ..< Suc (length (takeWhile (\<lambda>c. c \<noteq> newline) t))]))"
    unfolding F_def by (rule run_series_then)
  then have run: "run SEMVER_MATCHER ([], t, []) = concat (map F (rev [1 ..< Suc L]))"
    unfolding SEMVER_MATCHER_unfold T_def [symmetric] nn L_def .
  have k1: "1 \<le> k" using s(1) by (cases series) (simp_all add: k_def)
  have kL: "k < L" by (simp add: k_def L_def t_def)
  have "[1 ..< k + (Suc L - k)] = [1 ..< k] @ [k ..< k + (Suc L - k)]"
    using k1 by (rule upt_add_eq_append)
  moreover have "k + (Suc L - k) = Suc L" using kL by simp
  ultimately have "[1 ..< Suc L] = [1 ..< k] @ [k ..< Suc L]" by (simp only:)
  also have "[k ..< Suc L] = k # [Suc k ..< Suc L]"
    using kL by (intro upt_conv_Cons) simp
  finally have split: "rev [1 ..< Suc L] = rev [Suc k ..< Suc L] @ k # rev [1 ..< k]"
    by simp
  have late: "F j = []" if "j \<in> set (rev [Suc k ..< Suc L])" for j
  proof -
    from that have j: "Suc k \<le> j" by auto
    from j obtain i where i: "j = Suc k + i" by (metis le_Suc_ex)
    have "drop j t = drop i body"
      by (simp add: t_def k_def i)
    then have "set (drop j t) \<subseteq> set body" by (simp add: set_drop_subset)
    then have "drop j t = [] \<or> hd (drop j t) \<noteq> CHR ''-''"
      using body by (cases "drop j t") auto
    then show ?thesis
      unfolding F_def T_def by (subst run_Seq_Chr) (auto split: list.splits)
  qed
  have tk: "take k t = series" and dk: "drop k t = ''-'' @ ma @ ''.'' @ mi @ ''.'' @ pa @ []"
    by (simp_all add: t_def k_def body_def)
  have tw: "takeWhile (\<lambda>c. c \<in> set digits) (pa @ []) = pa"
    using span_number_end [OF n(3)] by simp
  have pa: "pa \<noteq> []" using n(3) by (simp add: is_number_def)
  then have up: "rev [1 ..< Suc (length pa)] = length pa # rev [1 ..< length pa]"
    by (cases pa) simp_all
  have "F k = map (\<lambda>j. (rev (take j (pa @ [])) @ CHR ''.'' # rev mi @ CHR ''.'' # rev ma @ CHR ''-'' # (rev series @ []),
                      drop j (pa @ []),
                      (4, length (rev series @ []) + length ma + length mi + 3,
                          length (rev series @ []) + length ma + length mi + 3 + j)
                      # (3, length (rev series @ []) + length ma + 2,
                           length (rev series @ []) + length ma + 2 + length mi)
                      # (2, Suc (length (rev series @ [])), Suc (length (rev series @ [])) + length ma)
                      # [(1, length ([] :: string), length ([] :: string) + k)]))
               (rev [1 ..< Suc (length (takeWhile (\<lambda>c. c \<in> set digits) (pa @ [])))])"
    unfolding F_def T_def tk dk by (rule version_tail_exact [OF n])
  then have at: "F k = st0 # map (\<lambda>j. (rev (take j (pa @ [])) @ CHR ''.'' # rev mi @ CHR ''.'' # rev ma @ CHR ''-'' # (rev series @ []),
                      drop j (pa @ []),
                      (4, length (rev series @ []) + length ma + length mi + 3,
                          length (rev series @ []) + length ma + length mi + 3 + j)
                      # (3, length (rev series @ []) + length ma + 2,
                           length (rev series @ []) + length ma + 2 + length mi)
                      # (2, Suc (length (rev series @ [])), Suc (length (rev series @ [])) + length ma)
                      # [(1, length ([] :: string), length ([] :: string) + k)]))
               (rev [1 ..< length pa])"
    unfolding tw up by (simp add: st0_def k_def)
  have "concat (map F (rev [Suc k ..< Suc L])) = []"
    by (rule concat_map_Nil) (rule late)
  then have "run SEMVER_MATCHER ([], t, []) = F k @ concat (map F (rev [1 ..< k]))"
    unfolding run split by simp
  then have m: "re_match SEMVER_MATCHER t = Some st0"
    unfolding at by (simp add: re_match_def)
  have g1: "group t st0 1 = series"
    using slice_mid [of "[]" series "''-'' @ body"]
    by (simp add: group_def m_start_def m_end_def span_def st0_def t_def k_def)
  have g2: "group t st0 2 = ma"
    using slice_mid [of "series @ ''-''" ma "''.'' @ mi @ ''.'' @ pa"]
    by (simp add: group_def m_start_def m_end_def span_def st0_def t_def k_def body_def)
  have g3: "group t st0 3 = mi"
    using slice_mid [of "series @ ''-'' @ ma @ ''.''" mi "''.'' @ pa"]
    by (simp add: group_def m_start_def m_end_def span_def st0_def t_def k_def body_def
                  add.commute add.left_commute numeral_2_eq_2 numeral_3_eq_3)
  have g4: "group t st0 4 = pa"
    using slice_mid [of "series @ ''-'' @ ma @ ''.'' @ mi @ ''.''" pa "[]"]
    by (simp add: group_def m_start_def m_end_def span_def st0_def t_def k_def body_def
                  add.commute add.left_commute numeral_2_eq_2 numeral_3_eq_3)
  have "SemanticVersion_make t =
           Inr \<lparr>series_name = series, major = int_of_str ma, minor = int_of_str mi,
                patch = int_of_str pa\<rparr>"
    by (simp only: SemanticVersion_make_def m option.case g1 g2 g3 g4)
  then show ?thesis by (simp only: t_def body_def)
qed


text \<open>
  Claim C8, as amended. For every SemanticVersion \<open>v\<close> with non-negative integer components
  and a non-empty series that holds no newline character (whether or not the series
  itself ends in \<^verbatim>\<open>-<digits>.<digits>.<digits>\<close>), parsing the tag text that formatting
  produces yields \<open>v\<close> back: \<^verbatim>\<open>SemanticVersion.make(v.to_tag()) == v\<close>.
\<close>

theorem semver_round_trip:
  assumes "series_name v \<noteq> []" and "newline \<notin> set (series_name v)"
    and "0 \<le> major v" and "0 \<le> minor v" and "0 \<le> patch v"
  shows "SemanticVersion_make (to_tag v) = Inr v"
proof -
  have t: "to_tag v = series_name v @ ''-'' @ str_of_nat (nat (major v)) @ ''.''
                        @ str_of_nat (nat (minor v)) @ ''.'' @ str_of_nat (nat (patch v))"
    using assms(3-5) by (simp add: to_tag_def str_of_int_def)
  have "SemanticVersion_make (to_tag v) =
          Inr \<lparr>series_name = series_name v,
               major = int_of_str (str_of_nat (nat (major v))),
               minor = int_of_str (str_of_nat (nat (minor v))),
               patch = int_of_str (str_of_nat (nat (patch v)))\<rparr>"
    unfolding t
    by (rule semver_make_exact [OF assms(1) assms(2) str_of_nat_number str_of_nat_number
                                   str_of_nat_number])
  then show ?thesis
    using assms(3-5) by (simp add: int_of_str_str_of_nat)
qed

text \<open>A series that itself ends in a version: the last version of the text is the one parsed.\<close>

theorem semver_round_trip_witness:
  "SemanticVersion_make
     (to_tag \<lparr>series_name = ''rc-1.2.3'', major = 10, minor = 0, patch = 7\<rparr>)
   = Inr \<lparr>series_name = ''rc-1.2.3'', major = 10, minor = 0, patch = 7\<rparr>"
proof -
  let ?v = "\<lparr>series_name = ''rc-1.2.3'', major = 10, minor = 0, patch = 7\<rparr>"
  have "series_name ?v \<noteq> []" "newline \<notin> set (series_name ?v)"
    "0 \<le> major ?v" "0 \<le> minor ?v" "0 \<le> patch ?v"
    by (simp_all add: newline_def)
  then show ?thesis by (rule semver_round_trip)
qed

text \<open>
  The claim as stated fails: a series with a newline in it is non-empty and has no version
  suffix, and the tag text formatted from it does not parse.
\<close>

theorem semver_round_trip_newline_counterexample:
  "to_tag \<lparr>series_name = ''a\<newline>b'', major = 1, minor = 2, patch = 3\<rparr> = ''a\<newline>b-1.2.3''
   \<and> SemanticVersion_make (to_tag \<lparr>series_name = ''a\<newline>b'', major = 1, minor = 2, patch = 3\<rparr>)
     = Inl (ValueError ''Malformed tag \"a\<newline>b-1.2.3\"'')"
  by code_simp

section \<open>Which reading of a tag text is parsed\<close>

lemma tag_prefix_form_split:
  "tag_prefix_form t \<longleftrightarrow> (\<exists>series ma mi pa trailing. semver_split t series ma mi pa trailing)"
  by (simp only: tag_prefix_form_def semver_split_def)

lemma first_line_prefix:
  assumes "j \<le> length (takeWhile (\<lambda>c. c \<noteq> newline) t)"
  shows "newline \<notin> set (take j t)" and "length (take j t) = j"
proof -
  let ?nn = "\<lambda>c. c \<noteq> newline"
  let ?k = "length (takeWhile ?nn t)"
  have kt: "?k \<le> length t" by (rule length_takeWhile_le)
  have tk: "takeWhile ?nn t = take ?k t" by (rule takeWhile_eq_take)
  have "take j (takeWhile ?nn t) = take j (take ?k t)" by (rule arg_cong [OF tk])
  also have "\<dots> = take j t" using assms by (simp add: min_def)
  finally have "take j t = take j (takeWhile ?nn t)" by (rule sym)
  then have "set (take j t) \<subseteq> set (takeWhile ?nn t)" by (simp add: set_take_subset)
  then show "newline \<notin> set (take j t)" by (auto dest: set_takeWhileD)
  show "length (take j t) = j" using assms kt by simp
qed

lemma maximal_patch:
  assumes "is_number pa" and "trailing = [] \<or> hd trailing \<notin> set digits"
  shows "takeWhile (\<lambda>c. c \<in> set digits) (pa @ trailing) = pa"
proof (cases trailing)
  case Nil
  then show ?thesis using span_number_end [OF assms(1)] by simp
next
  case (Cons x a)
  with assms(2) have "\<not> x \<in> set digits" by simp
  from span_number(1) [OF assms(1) this] show ?thesis by (simp only: Cons)
qed

lemma semver_make_greedy:
  assumes s: "series \<noteq> []" "newline \<notin> set series"
    and n: "is_number ma" "is_number mi" "is_number pa"
    and mx: "trailing = [] \<or> hd trailing \<notin> set digits"
    and lg: "\<And>series' ma' mi' pa' trailing'.
               semver_split (series @ ''-'' @ ma @ ''.'' @ mi @ ''.'' @ pa @ trailing)
                 series' ma' mi' pa' trailing'
               \<Longrightarrow> length series' \<le> length series"
  shows "SemanticVersion_make (series @ ''-'' @ ma @ ''.'' @ mi @ ''.'' @ pa @ trailing) =
           Inr \<lparr>series_name = series, major = int_of_str ma, minor = int_of_str mi,
                patch = int_of_str pa\<rparr>"
proof -
  define body where "body = ma @ ''.'' @ mi @ ''.'' @ pa @ trailing"
  define t where "t = series @ ''-'' @ body"
  define T where "T = Seq (Chr CHR ''-'')
          (Seq (Group 2 (Many1 (OneOf digits)))
             (Seq (Chr CHR ''.'')
                (Seq (Group 3 (Many1 (OneOf digits)))
                   (Seq (Chr CHR ''.'') (Seq (Group 4 (Many1 (OneOf digits))) Eps)))))"
  define F where "F = (\<lambda>j. run T (rev (take j t) @ [], drop j t,
                                    [(1, length ([] :: string), length ([] :: string) + j)]))"
  define k where "k = length series"
  define K where "K = length (takeWhile (\<lambda>c. c \<noteq> newline) t)"
  define st0 :: mstate where "st0 =
     (rev pa @ CHR ''.'' # rev mi @ CHR ''.'' # rev ma @ CHR ''-'' # rev series, trailing,
      [(4, k + length ma + length mi + 3, k + length ma + length mi + 3 + length pa),
       (3, k + length ma + 2, k + length ma + 2 + length mi),
       (2, Suc k, Suc k + length ma), (1, 0, k)])"
  have lg': "length series' \<le> k" if "semver_split t series' ma' mi' pa' trailing'"
    for series' ma' mi' pa' trailing'
    using that unfolding t_def body_def k_def by (rule lg)
  have "run (Seq (Group 1 (Many1 Dot)) T) ([], t, []) =
          concat (map F (rev [1 ..< Suc (length (takeWhile (\<lambda>c. c \<noteq> newline) t))]))"
    unfolding F_def by (rule run_series_then)
  then have run: "run SEMVER_MATCHER ([], t, []) = concat (map F (rev [1 ..< Suc K]))"
    unfolding SEMVER_MATCHER_unfold T_def [symmetric] K_def .
  have k1: "1 \<le> k" using s(1) by (cases series) (simp_all add: k_def)
  have "takeWhile (\<lambda>c. c \<noteq> newline) t
          = series @ takeWhile (\<lambda>c. c \<noteq> newline) (''-'' @ body)"
    unfolding t_def using s(2) by (intro takeWhile_append2) auto
  then have kK: "k < Suc K" by (simp add: k_def K_def)
  have "[1 ..< k + (Suc K - k)] = [1 ..< k] @ [k ..< k + (Suc K - k)]"
    using k1 by (rule upt_add_eq_append)
  moreover have "k + (Suc K - k) = Suc K" using kK by simp
  ultimately have "[1 ..< Suc K] = [1 ..< k] @ [k ..< Suc K]" by (simp only:)
  also have "[k ..< Suc K] = k # [Suc k ..< Suc K]"
    using kK by (intro upt_conv_Cons) simp
  finally have split: "rev [1 ..< Suc K] = rev [Suc k ..< Suc K] @ k # rev [1 ..< k]"
    by simp
  have late: "F j = []" if "j \<in> set (rev [Suc k ..< Suc K])" for j
  proof (rule ccontr)
    from that have j: "Suc k \<le> j" "j \<le> K" by auto
    assume "F j \<noteq> []"
    then have "\<exists>ma' mi' pa' tr'. drop j t = ''-'' @ ma' @ ''.'' @ mi' @ ''.'' @ pa' @ tr'
                 \<and> is_number ma' \<and> is_number mi' \<and> is_number pa'"
      unfolding F_def T_def by (simp only: version_tail_nonempty_iff)
    then obtain ma' mi' pa' tr' where
      d: "drop j t = ''-'' @ ma' @ ''.'' @ mi' @ ''.'' @ pa' @ tr'"
      and n': "is_number ma'" "is_number mi'" "is_number pa'" by blast
    from j(2) have nl: "newline \<notin> set (take j t)" and len: "length (take j t) = j"
      unfolding K_def by (rule first_line_prefix)+
    from len j(1) have ne: "take j t \<noteq> []" by auto
    have "t = take j t @ ''-'' @ ma' @ ''.'' @ mi' @ ''.'' @ pa' @ tr'"
      using d by (metis append_take_drop_id)
    with ne nl n' have "semver_split t (take j t) ma' mi' pa' tr'"
      unfolding semver_split_def by blast
    then have "length (take j t) \<le> k" by (rule lg')
    with len j(1) show False by simp
  qed
  have tk: "take k t = series"
    and dk: "drop k t = ''-'' @ ma @ ''.'' @ mi @ ''.'' @ pa @ trailing"
    by (simp_all add: t_def k_def body_def)
  have tw: "takeWhile (\<lambda>c. c \<in> set digits) (pa @ trailing) = pa"
    using n(3) mx by (rule maximal_patch)
  have pa: "pa \<noteq> []" using n(3) by (simp add: is_number_def)
  then have up: "rev [1 ..< Suc (length pa)] = length pa # rev [1 ..< length pa]"
    by (cases pa) simp_all
  have "F k = map (\<lambda>j. (rev (take j (pa @ trailing)) @ CHR ''.'' # rev mi @ CHR ''.'' # rev ma @ CHR ''-'' # (rev series @ []),
                      drop j (pa @ trailing),
                      (4, length (rev series @ []) + length ma + length mi + 3,
                          length (rev series @ []) + length ma + length mi + 3 + j)
                      # (3, length (rev series @ []) + length ma + 2,
                           length (rev series @ []) + length ma + 2 + length mi)
                      # (2, Suc (length (rev series @ [])), Suc (length (rev series @ [])) + length ma)
                      # [(1, length ([] :: string), length ([] :: string) + k)]))
               (rev [1 ..< Suc (length (takeWhile (\<lambda>c. c \<in> set digits) (pa @ trailing)))])"
    unfolding F_def T_def tk dk by (rule version_tail_exact [OF n])
  then have at: "F k = st0 # map (\<lambda>j. (rev (take j (pa @ trailing)) @ CHR ''.'' # rev mi @ CHR ''.'' # rev ma @ CHR ''-'' # (rev series @ []),
                      drop j (pa @ trailing),
                      (4, length (rev series @ []) + length ma + length mi + 3,
                          length (rev series @ []) + length ma + length mi + 3 + j)
                      # (3, length (rev series @ []) + length ma + 2,
                           length (rev series @ []) + length ma + 2 + length mi)
                      # (2, Suc (length (rev series @ [])), Suc (length (rev series @ [])) + length ma)
                      # [(1, length ([] :: string), length ([] :: string) + k)]))
               (rev [1 ..< length pa])"
    unfolding tw up by (simp add: st0_def k_def)
  have "concat (map F (rev [Suc k ..< Suc K])) = []"
    by (rule concat_map_Nil) (rule late)
  then have "run SEMVER_MATCHER ([], t, []) = F k @ concat (map F (rev [1 ..< k]))"
    unfolding run split by simp
  then have m: "re_match SEMVER_MATCHER t = Some st0"
    unfolding at by (simp add: re_match_def)
  have g1: "group t st0 1 = series"
    using slice_mid [of "[]" series "''-'' @ body"]
    by (simp add: group_def m_start_def m_end_def span_def st0_def t_def k_def)
  have g2: "group t st0 2 = ma"
    using slice_mid [of "series @ ''-''" ma "''.'' @ mi @ ''.'' @ pa @ trailing"]
    by (simp add: group_def m_start_def m_end_def span_def st0_def t_def k_def body_def)
  have g3: "group t st0 3 = mi"
    using slice_mid [of "series @ ''-'' @ ma @ ''.''" mi "''.'' @ pa @ trailing"]
    by (simp add: group_def m_start_def m_end_def span_def st0_def t_def k_def body_def
                  add.commute add.left_commute numeral_2_eq_2 numeral_3_eq_3)
  have g4: "group t st0 4 = pa"
    using slice_mid [of "series @ ''-'' @ ma @ ''.'' @ mi @ ''.''" pa trailing]
    by (simp add: group_def m_start_def m_end_def span_def st0_def t_def k_def body_def
                  add.commute add.left_commute numeral_2_eq_2 numeral_3_eq_3)
  have "SemanticVersion_make t =
           Inr \<lparr>series_name = series, major = int_of_str ma, minor = int_of_str mi,
                patch = int_of_str pa\<rparr>"
    by (simp only: SemanticVersion_make_def m option.case g1 g2 g3 g4)
  then show ?thesis by (simp only: t_def body_def)
qed

lemma longest_reading_exists:
  assumes p: "tag_prefix_form t"
  shows "\<exists>series ma mi pa trailing.
           semver_split t series ma mi pa trailing
           \<and> (trailing = [] \<or> hd trailing \<notin> set digits)
           \<and> (\<forall>series' ma' mi' pa' trailing'.
                semver_split t series' ma' mi' pa' trailing' \<longrightarrow> length series' \<le> length series)"
proof -
  define S where "S = {n. \<exists>series ma mi pa tr.
                           semver_split t series ma mi pa tr \<and> length series = n}"
  have "S \<subseteq> {.. length t}" by (auto simp: S_def semver_split_def)
  then have fin: "finite S" by (rule finite_subset) simp
  from p have ne: "S \<noteq> {}" unfolding tag_prefix_form_split S_def by blast
  from fin ne have "Max S \<in> S" by (rule Max_in)
  then obtain series ma mi pa0 tr0 where
    sp0: "semver_split t series ma mi pa0 tr0" and len: "length series = Max S"
    unfolding S_def by blast
  define pa where "pa = takeWhile (\<lambda>c. c \<in> set digits) (pa0 @ tr0)"
  define trailing where "trailing = dropWhile (\<lambda>c. c \<in> set digits) (pa0 @ tr0)"
  have eq: "pa0 @ tr0 = pa @ trailing" by (simp add: pa_def trailing_def)
  from sp0 have n0: "is_number pa0" by (simp add: semver_split_def)
  have "takeWhile (\<lambda>c. c \<in> set digits) (pa0 @ tr0)
          = pa0 @ takeWhile (\<lambda>c. c \<in> set digits) tr0"
    using n0 by (intro takeWhile_append2) (auto simp: is_number_def list_all_iff)
  then have "takeWhile (\<lambda>c. c \<in> set digits) (pa0 @ tr0) \<noteq> []"
    using n0 by (simp add: is_number_def)
  then have np: "is_number pa" unfolding pa_def by (rule is_number_takeWhile)
  have mx: "trailing = [] \<or> hd trailing \<notin> set digits"
    unfolding trailing_def using hd_dropWhile [of "\<lambda>c. c \<in> set digits" "pa0 @ tr0"] by blast
  from sp0 have t: "t = series @ ''-'' @ ma @ ''.'' @ mi @ ''.'' @ pa @ trailing"
    and s: "series \<noteq> []" "newline \<notin> set series"
    and n: "is_number ma" "is_number mi"
    by (simp_all add: semver_split_def eq)
  from t s n np have sp: "semver_split t series ma mi pa trailing"
    by (simp only: semver_split_def simp_thms)
  have lg: "length series' \<le> length series"
    if "semver_split t series' ma' mi' pa' trailing'" for series' ma' mi' pa' trailing'
  proof -
    from that have "length series' \<in> S" unfolding S_def by blast
    with fin show ?thesis unfolding len by (rule Max_ge)
  qed
  from sp mx lg show ?thesis by blast
qed

lemma split_dash_position:
  assumes "semver_split t series ma mi pa trailing"
  shows "length series < length t" and "t ! length series = CHR ''-''"
proof -
  from assms have t: "t = series @ CHR ''-'' # (ma @ ''.'' @ mi @ ''.'' @ pa @ trailing)"
    by (simp add: semver_split_def)
  show "length series < length t" by (subst t) simp
  show "t ! length series = CHR ''-''" by (subst t) (simp only: nth_append_length)
qed

text \<open>
  Claim C4, as amended. \<^verbatim>\<open>SemanticVersion.make\<close> succeeds exactly on the tag texts that
  begin with the form \<^verbatim>\<open><series>-<major>.<minor>.<patch>\<close>, where the series is non-empty
  and holds no newline and the components are non-empty strings of decimal digits,
  whatever text follows. Of the ways in which such a text can be read, the version
  returned is the one with the longest series, and its patch is the whole run of digits
  after the second dot: only the text after that run is left out. On every other text
  \<^verbatim>\<open>make\<close> fails with the \<^verbatim>\<open>ValueError\<close> whose message \<^verbatim>\<open>Malformed tag "<text>"\<close> names
  the text.
\<close>

theorem semver_make_reads_longest_series:
  "(semver_split t series ma mi pa trailing
      \<and> (trailing = [] \<or> hd trailing \<notin> set digits)
      \<and> (\<forall>series' ma' mi' pa' trailing'.
           semver_split t series' ma' mi' pa' trailing' \<longrightarrow> length series' \<le> length series)
      \<longrightarrow> SemanticVersion_make t =
            Inr \<lparr>series_name = series, major = int_of_str ma, minor = int_of_str mi,
                 patch = int_of_str pa\<rparr>)
   \<and> (tag_prefix_form t \<longrightarrow>
        (\<exists>series ma mi pa trailing.
           semver_split t series ma mi pa trailing
           \<and> (trailing = [] \<or> hd trailing \<notin> set digits)
           \<and> (\<forall>series' ma' mi' pa' trailing'.
                semver_split t series' ma' mi' pa' trailing' \<longrightarrow> length series' \<le> length series)))
   \<and> (\<not> tag_prefix_form t \<longrightarrow>
        SemanticVersion_make t = Inl (ValueError (''Malformed tag \"'' @ t @ ''\"'')))"
proof (intro conjI impI)
  assume a: "semver_split t series ma mi pa trailing
      \<and> (trailing = [] \<or> hd trailing \<notin> set digits)
      \<and> (\<forall>series' ma' mi' pa' trailing'.
           semver_split t series' ma' mi' pa' trailing' \<longrightarrow> length series' \<le> length series)"
  from a have sp: "semver_split t series ma mi pa trailing" by (rule conjunct1)
  from a have mx: "trailing = [] \<or> hd trailing \<notin> set digits" by (rule conjunct2 [THEN conjunct1])
  from a have lg: "\<forall>series' ma' mi' pa' trailing'.
           semver_split t series' ma' mi' pa' trailing' \<longrightarrow> length series' \<le> length series"
    by (rule conjunct2 [THEN conjunct2])
  from sp have t: "t = series @ ''-'' @ ma @ ''.'' @ mi @ ''.'' @ pa @ trailing"
    and s: "series \<noteq> []" "newline \<notin> set series"
    and n: "is_number ma" "is_number mi" "is_number pa"
    by (simp_all add: semver_split_def)
  have "SemanticVersion_make (series @ ''-'' @ ma @ ''.'' @ mi @ ''.'' @ pa @ trailing) =
           Inr \<lparr>series_name = series, major = int_of_str ma, minor = int_of_str mi,
                patch = int_of_str pa\<rparr>"
    using s n mx
  proof (rule semver_make_greedy)
    fix series' ma' mi' pa' trailing'
    assume "semver_split (series @ ''-'' @ ma @ ''.'' @ mi @ ''.'' @ pa @ trailing)
              series' ma' mi' pa' trailing'"
    then have "semver_split t series' ma' mi' pa' trailing'" by (simp only: t [symmetric])
    with lg show "length series' \<le> length series" by blast
  qed
  then show "SemanticVersion_make t =
           Inr \<lparr>series_name = series, major = int_of_str ma, minor = int_of_str mi,
                patch = int_of_str pa\<rparr>"
    by (simp only: t [symmetric])
next
  assume "tag_prefix_form t"
  then show "\<exists>series ma mi pa trailing.
           semver_split t series ma mi pa trailing
           \<and> (trailing = [] \<or> hd trailing \<notin> set digits)
           \<and> (\<forall>series' ma' mi' pa' trailing'.
                semver_split t series' ma' mi' pa' trailing' \<longrightarrow> length series' \<le> length series)"
    by (rule longest_reading_exists)
next
  assume "\<not> tag_prefix_form t"
  then have "re_match SEMVER_MATCHER t = None" using semver_match_iff [of t] by blast
  then show "SemanticVersion_make t = Inl (ValueError (''Malformed tag \"'' @ t @ ''\"''))"
    by (simp add: SemanticVersion_make_def)
qed

text \<open>
  The text \<^verbatim>\<open>a-1.2.3-9.9.91x\<close> has a dash at the positions 1 and 7 only, so that its
  longest series is \<^verbatim>\<open>a-1.2.3\<close>; it parses as that series with the version 9.9.91, and
  only the \<^verbatim>\<open>x\<close> is left out. The text \<^verbatim>\<open>a-1.2.34\<close> begins with the form, and is parsed
  as one of its readings, the one with the patch 34. The text \<^verbatim>\<open>garbage\<close> does not begin
  with the form and fails with the error that names it.
\<close>

theorem semver_make_reads_longest_series_witness:
  "SemanticVersion_make ''a-1.2.3-9.9.91x''
     = Inr \<lparr>series_name = ''a-1.2.3'', major = 9, minor = 9, patch = 91\<rparr>
   \<and> (\<exists>series ma mi pa trailing.
        semver_split ''a-1.2.34'' series ma mi pa trailing
        \<and> SemanticVersion_make ''a-1.2.34'' =
            Inr \<lparr>series_name = series, major = int_of_str ma, minor = int_of_str mi,
                 patch = int_of_str pa\<rparr>)
   \<and> SemanticVersion_make ''a-1.2.34''
     = Inr \<lparr>series_name = ''a'', major = 1, minor = 2, patch = 34\<rparr>
   \<and> \<not> tag_prefix_form ''garbage''
   \<and> SemanticVersion_make ''garbage'' = Inl (ValueError ''Malformed tag \"garbage\"'')"
proof -
  let ?t = "''a-1.2.3-9.9.91x''"
  have sp: "semver_split ?t ''a-1.2.3'' ''9'' ''9'' ''91'' ''x''" by code_simp
  have mx: "''x'' = [] \<or> hd ''x'' \<notin> set digits" by code_simp
  have dash: "\<forall>i \<in> set [0 ..< length ?t]. ?t ! i = CHR ''-'' \<longrightarrow> i \<le> length ''a-1.2.3''"
    by code_simp
  have lg: "\<forall>series' ma' mi' pa' trailing'.
              semver_split ?t series' ma' mi' pa' trailing'
              \<longrightarrow> length series' \<le> length ''a-1.2.3''"
  proof (intro allI impI)
    fix series' ma' mi' pa' trailing'
    assume r: "semver_split ?t series' ma' mi' pa' trailing'"
    from r have "length series' < length ?t" by (rule split_dash_position(1))
    then have "length series' \<in> set [0 ..< length ?t]" by (simp only: set_upt atLeastLessThan_iff le0 simp_thms)
    moreover from r have "?t ! length series' = CHR ''-''" by (rule split_dash_position(2))
    ultimately show "length series' \<le> length ''a-1.2.3''" using dash by blast
  qed
  from sp mx lg have h: "semver_split ?t ''a-1.2.3'' ''9'' ''9'' ''91'' ''x''
      \<and> (''x'' = [] \<or> hd ''x'' \<notin> set digits)
      \<and> (\<forall>series' ma' mi' pa' trailing'.
           semver_split ?t series' ma' mi' pa' trailing' \<longrightarrow> length series' \<le> length ''a-1.2.3'')"
    by (intro conjI)
  have "SemanticVersion_make ?t =
          Inr \<lparr>series_name = ''a-1.2.3'', major = int_of_str ''9'', minor = int_of_str ''9'',
               patch = int_of_str ''91''\<rparr>"
    using h by (rule semver_make_reads_longest_series [THEN conjunct1, THEN mp])
  moreover have "int_of_str ''9'' = 9" "int_of_str ''91'' = 91" by code_simp+
  ultimately have c1: "SemanticVersion_make ?t
     = Inr \<lparr>series_name = ''a-1.2.3'', major = 9, minor = 9, patch = 91\<rparr>"
    by (simp only:)
  have "semver_split ''a-1.2.34'' ''a'' ''1'' ''2'' ''3'' ''4''" by code_simp
  then have p: "tag_prefix_form ''a-1.2.34''" unfolding tag_prefix_form_split by blast
  have "\<exists>series ma mi pa trailing.
           semver_split ''a-1.2.34'' series ma mi pa trailing
           \<and> (trailing = [] \<or> hd trailing \<notin> set digits)
           \<and> (\<forall>series' ma' mi' pa' trailing'.
                semver_split ''a-1.2.34'' series' ma' mi' pa' trailing'
                \<longrightarrow> length series' \<le> length series)"
    using p by (rule semver_make_reads_longest_series [THEN conjunct2, THEN conjunct1, THEN mp])
  then obtain series ma mi pa trailing where
    r: "semver_split ''a-1.2.34'' series ma mi pa trailing
           \<and> (trailing = [] \<or> hd trailing \<notin> set digits)
           \<and> (\<forall>series' ma' mi' pa' trailing'.
                semver_split ''a-1.2.34'' series' ma' mi' pa' trailing'
                \<longrightarrow> length series' \<le> length series)"
    by blast
  then have "SemanticVersion_make ''a-1.2.34'' =
            Inr \<lparr>series_name = series, major = int_of_str ma, minor = int_of_str mi,
                 patch = int_of_str pa\<rparr>"
    by (rule semver_make_reads_longest_series [THEN conjunct1, THEN mp])
  with r have c2: "\<exists>series ma mi pa trailing.
        semver_split ''a-1.2.34'' series ma mi pa trailing
        \<and> SemanticVersion_make ''a-1.2.34'' =
            Inr \<lparr>series_name = series, major = int_of_str ma, minor = int_of_str mi,
                 patch = int_of_str pa\<rparr>"
    by blast
  have c3: "SemanticVersion_make ''a-1.2.34''
     = Inr \<lparr>series_name = ''a'', major = 1, minor = 2, patch = 34\<rparr>"
    by code_simp
  have e: "SemanticVersion_make ''garbage'' = Inl (ValueError ''Malformed tag \"garbage\"'')"
    by code_simp
  have c4: "\<not> tag_prefix_form ''garbage''"
  proof
    assume "tag_prefix_form ''garbage''"
    then have "\<exists>series ma mi pa trailing.
           semver_split ''garbage'' series ma mi pa trailing
           \<and> (trailing = [] \<or> hd trailing \<notin> set digits)
           \<and> (\<forall>series' ma' mi' pa' trailing'.
                semver_split ''garbage'' series' ma' mi' pa' trailing'
                \<longrightarrow> length series' \<le> length series)"
      by (rule semver_make_reads_longest_series [THEN conjunct2, THEN conjunct1, THEN mp])
    then obtain series ma mi pa trailing where
      "semver_split ''garbage'' series ma mi pa trailing
           \<and> (trailing = [] \<or> hd trailing \<notin> set digits)
           \<and> (\<forall>series' ma' mi' pa' trailing'.
                semver_split ''garbage'' series' ma' mi' pa' trailing'
                \<longrightarrow> length series' \<le> length series)"
      by blast
    then have "SemanticVersion_make ''garbage'' =
            Inr \<lparr>series_name = series, major = int_of_str ma, minor = int_of_str mi,
                 patch = int_of_str pa\<rparr>"
      by (rule semver_make_reads_longest_series [THEN conjunct1, THEN mp])
    with e show False by simp
  qed
  from c1 c2 c3 c4 e show ?thesis by (intro conjI)
qed

lemma tag_form_last: "tag_form t \<Longrightarrow> last t \<in> set digits"
proof -
  assume "tag_form t"
  then obtain series ma mi pa where
    t: "t = series @ ''-'' @ ma @ ''.'' @ mi @ ''.'' @ pa" and n: "is_number pa"
    unfolding tag_form_def by blast
  from n have ne: "pa \<noteq> []" and all: "\<forall>c \<in> set pa. c \<in> set digits"
    by (simp_all add: is_number_def list_all_iff)
  have "last t = last pa" unfolding t using ne by simp
  with ne all show ?thesis by simp
qed

text \<open>
  The claim as stated fails: the text \<^verbatim>\<open>a-1.2.3x\<close> is not of the form
  \<^verbatim>\<open><series>-<major>.<minor>.<patch>\<close> (it does not end in a digit), and it parses.
\<close>

theorem semver_make_trailing_text_counterexample:
  "SemanticVersion_make ''a-1.2.3x'' = Inr \<lparr>series_name = ''a'', major = 1, minor = 2, patch = 3\<rparr>
   \<and> \<not> tag_form ''a-1.2.3x''"
proof
  show "SemanticVersion_make ''a-1.2.3x''
          = Inr \<lparr>series_name = ''a'', major = 1, minor = 2, patch = 3\<rparr>"
    by code_simp
  show "\<not> tag_form ''a-1.2.3x''"
  proof
    assume "tag_form ''a-1.2.3x''"
    then have "last ''a-1.2.3x'' \<in> set digits" by (rule tag_form_last)
    then show False by (simp add: digits_def)
  qed
qed

end
